theory Spec2Isabelle
  imports Main
begin

section \<open>Values\<close>

text \<open>
  A shallow embedding of \<^verbatim>\<open>src/Publisher.js\<close>. JavaScript values are a datatype;
  objects with identity (promises, user functions, the closures made by \<^verbatim>\<open>listen\<close>)
  are referred to by an address. The two kinds of function value that reach
  \<^verbatim>\<open>listen\<close> are a user's function and the arrow function that
  \<^verbatim>\<open>listenOnce\<close> builds around one.
\<close>

type_synonym pid = nat
type_synonym fid = nat
type_synonym sid = nat

datatype val =
    VUndef
  | VNull
  | VBool bool
  | VNum int
  | VStr string
  | VPublisher
  | VFun fn
  | VPromise pid
  | VArr "val list"
  | VArgs "val list"
  | VEntry fn val
and fn =
    User fid
  | OnceWrapper sid fid "val list" val

text \<open>
  \<open>VPublisher\<close> is the Publisher itself (the value of \<^verbatim>\<open>this\<close>), \<open>VArgs\<close> an
  \<^verbatim>\<open>arguments\<close> object, \<open>VArr\<close> an array and \<open>VEntry l v\<close> the object
  \<^verbatim>\<open>{listener: l, value: v}\<close>. \<open>OnceWrapper u f captured ctx\<close> is the arrow
  function of \<^verbatim>\<open>listenOnce\<close>: \<open>u\<close> is the subscription whose unsubscribe function
  the variable \<^verbatim>\<open>unsubscribe\<close> holds, \<open>f\<close> the user's callback, \<open>captured\<close> what
  the name \<^verbatim>\<open>arguments\<close> denotes inside the arrow function and \<open>ctx\<close> the value of
  \<^verbatim>\<open>bindContext\<close>.
\<close>

fun truthy :: "val \<Rightarrow> bool" where
  "truthy VUndef = False"
| "truthy VNull = False"
| "truthy (VBool b) = b"
| "truthy (VNum n) = (n \<noteq> 0)"
| "truthy (VStr s) = (s \<noteq> [])"
| "truthy _ = True"

text \<open>
  Modelled from the spec: the classification utilities of \<^verbatim>\<open>./utils\<close> are not part of
  the sources. \<open>isPromise\<close> is the spec's \<^verbatim>\<open>isDeferredResult\<close> and \<open>isArguments\<close>
  its \<^verbatim>\<open>isOrderedArgumentSequence\<close>.
\<close>

fun isPromise :: "val \<Rightarrow> bool" where
  "isPromise (VPromise p) = True"
| "isPromise _ = False"

fun isArguments :: "val \<Rightarrow> bool" where
  "isArguments (VArgs xs) = True"
| "isArguments _ = False"

text \<open>\<^verbatim>\<open>[].concat(x)\<close>: an array is spread, any other value is appended as one element.\<close>

fun concat_js :: "val list \<Rightarrow> val \<Rightarrow> val list" where
  "concat_js xs (VArr ys) = xs @ ys"
| "concat_js xs v = xs @ [v]"

text \<open>The elements of an \<^verbatim>\<open>arguments\<close> object used as an argument list.\<close>

fun elements :: "val \<Rightarrow> val list" where
  "elements (VArgs xs) = xs"
| "elements (VArr xs) = xs"
| "elements v = []"

section \<open>State\<close>

datatype outcome = Fulfilled val | Rejected val

datatype child = Completed | Failed

text \<open>
  The three continuations the source attaches to a promise:
  \<^item> \<open>ToChildren d\<close>: \<^verbatim>\<open>then(response => completed.asFunction(response),
     error => failed.asFunction(error))\<close> of \<^verbatim>\<open>resolve\<close>;
  \<^item> \<open>ToEntry l d\<close>: \<^verbatim>\<open>then(result => ({listener: l, value: result}))\<close> of
     \<^verbatim>\<open>_handleDispatchPromises\<close>, which has no failure continuation;
  \<^item> \<open>ToAll a i\<close>: the element function number \<open>i\<close> and the reject function that
     \<^verbatim>\<open>Promise.all\<close> attaches for its aggregate \<open>a\<close>.
  In the first two \<open>d\<close> is the promise that \<^verbatim>\<open>then\<close> returns.
\<close>

datatype reaction = ToChildren pid | ToEntry fn pid | ToAll pid nat

datatype pstate = Pending "reaction list" | Settled outcome

datatype job = Job reaction outcome

datatype event =
    Invoked sid
  | Called fid val "val list"
  | Unsubscribed sid
  | CanHandlePromiseQueried
  | Warned string
  | Triggered child val

record dispatch_record =
  promise :: pid
  listener :: fn

text \<open>
  The Publisher's fields (\<open>listeners\<close> is the handler list of \<^verbatim>\<open>this.emitter\<close> for
  the event type, \<open>dispatchPromises\<close> is \<^verbatim>\<open>this._dispatchPromises\<close>), the closures
  made by \<^verbatim>\<open>listen\<close> (\<open>nsubs\<close> of them: subscription \<open>h\<close> has the variable
  \<open>aborted h\<close> and the callback \<open>callback h\<close>), the promise objects (\<open>heap\<close>, and
  \<open>slots a\<close> for the values array of an aggregate \<open>a\<close>), the queue of promise jobs,
  and the trace of what the outside world observes: the event handler of a subscription
  invoking its callback (\<open>Invoked\<close>), calls of user functions with receiver and
  arguments (\<open>Called\<close>), calls of the unsubscribe function of a subscription
  (\<open>Unsubscribed\<close>), calls of \<^verbatim>\<open>canHandlePromise\<close>, warnings and the triggering
  of the child publishers.
\<close>

record state =
  listeners :: "sid list"
  nsubs :: nat
  aborted :: "sid \<Rightarrow> bool"
  callback :: "sid \<Rightarrow> fn"
  dispatchPromises :: "dispatch_record list"
  heap :: "pstate list"
  slots :: "pid \<Rightarrow> val option list"
  jobs :: "job list"
  trace :: "event list"

text \<open>What a user function does when called: calls into the Publisher, then a return value.\<close>

datatype action = Unsubscribe sid | Subscribe fn | Retrigger "val list"

text \<open>
  What a concrete Publisher supplies: the event type, the two hooks, the capability
  \<^verbatim>\<open>canHandlePromise\<close>, and the code of the user functions, which may read the
  state. The hooks are taken as functions of their arguments alone.
\<close>

record publisher_class =
  eventType :: string
  preEmit :: "val list \<Rightarrow> val"
  shouldEmit :: "val list \<Rightarrow> val"
  canHandlePromise :: bool
  body :: "fid \<Rightarrow> val \<Rightarrow> val list \<Rightarrow> state \<Rightarrow> action list \<times> val"

definition init :: state where
  "init = \<lparr>listeners = [], nsubs = 0, aborted = (\<lambda>h. False), callback = (\<lambda>h. User 0),
     dispatchPromises = [], heap = [], slots = (\<lambda>a. []), jobs = [], trace = []\<rparr>"

section \<open>Promises\<close>

text \<open>
  The promise operations of the language, after ECMAScript: a promise is pending with
  its reactions or settled; settling a pending promise queues one job per reaction, in
  order; attaching a reaction to a settled promise queues its job at once; jobs run
  later, first in first out.
\<close>

definition new_promise :: "state \<Rightarrow> pid \<times> state" where
  "new_promise s = (length (heap s), s\<lparr>heap := heap s @ [Pending []]\<rparr>)"

definition attach :: "pid \<Rightarrow> reaction \<Rightarrow> state \<Rightarrow> state" where
  "attach p r s =
     (if p < length (heap s) then
        (case heap s ! p of
           Pending rs \<Rightarrow> s\<lparr>heap := (heap s)[p := Pending (rs @ [r])]\<rparr>
         | Settled out \<Rightarrow> s\<lparr>jobs := jobs s @ [Job r out]\<rparr>)
      else s)"

definition settle :: "pid \<Rightarrow> outcome \<Rightarrow> state \<Rightarrow> state" where
  "settle p out s =
     (if p < length (heap s) then
        (case heap s ! p of
           Pending rs \<Rightarrow> s\<lparr>heap := (heap s)[p := Settled out], jobs := jobs s @ map (\<lambda>r. Job r out) rs\<rparr>
         | Settled _ \<Rightarrow> s)
      else s)"

definition filled :: "val option list \<Rightarrow> bool" where
  "filled vs = list_all (\<lambda>x. x \<noteq> None) vs"

fun run_job :: "job \<Rightarrow> state \<Rightarrow> state" where
  "run_job (Job (ToChildren d) (Fulfilled v)) s =
     settle d (Fulfilled VUndef) (s\<lparr>trace := trace s @ [Triggered Completed v]\<rparr>)"
| "run_job (Job (ToChildren d) (Rejected e)) s =
     settle d (Fulfilled VUndef) (s\<lparr>trace := trace s @ [Triggered Failed e]\<rparr>)"
| "run_job (Job (ToEntry l d) (Fulfilled v)) s = settle d (Fulfilled (VEntry l v)) s"
| "run_job (Job (ToEntry l d) (Rejected e)) s = settle d (Rejected e) s"
| "run_job (Job (ToAll a i) (Fulfilled v)) s =
     (let vs = (slots s a)[i := Some v];
          s1 = s\<lparr>slots := (slots s)(a := vs)\<rparr>
      in if filled vs then settle a (Fulfilled (VArr (map the vs))) s1 else s1)"
| "run_job (Job (ToAll a i) (Rejected e)) s = settle a (Rejected e) s"

definition pending_count :: "state \<Rightarrow> nat" where
  "pending_count s = length (filter (\<lambda>c. case c of Pending rs \<Rightarrow> True | Settled out \<Rightarrow> False) (heap s))"

function drain :: "state \<Rightarrow> state" where
  "drain s = (case jobs s of [] \<Rightarrow> s | j # js \<Rightarrow> drain (run_job j (s\<lparr>jobs := js\<rparr>)))"
  by pat_completeness auto

lemma filter_update_less:
  "p < length xs \<Longrightarrow> P (xs ! p) \<Longrightarrow> \<not> P y \<Longrightarrow> length (filter P (xs[p := y])) < length (filter P xs)"
proof (induction xs arbitrary: p)
  case Nil
  then show ?case by simp
next
  case (Cons x xs)
  then show ?case by (cases p) auto
qed

lemma settle_measure:
  "pending_count (settle p out s) < pending_count s
   \<or> (pending_count (settle p out s) = pending_count s \<and> jobs (settle p out s) = jobs s)"
  by (auto simp: settle_def pending_count_def split: pstate.splits intro!: filter_update_less)

lemma run_job_measure:
  "pending_count (run_job j s) < pending_count s
   \<or> (pending_count (run_job j s) = pending_count s \<and> jobs (run_job j s) = jobs s)"
proof (cases "(j, s)" rule: run_job.cases)
  case (1 d v s')
  then show ?thesis using settle_measure [of d "Fulfilled VUndef" "s\<lparr>trace := trace s @ [Triggered Completed v]\<rparr>"]
    by (simp add: pending_count_def)
next
  case (2 d e s')
  then show ?thesis using settle_measure [of d "Fulfilled VUndef" "s\<lparr>trace := trace s @ [Triggered Failed e]\<rparr>"]
    by (simp add: pending_count_def)
next
  case (3 l d v s')
  then show ?thesis using settle_measure by simp
next
  case (4 l d e s')
  then show ?thesis using settle_measure by simp
next
  case (5 a i v s')
  then show ?thesis
    using settle_measure [of a "Fulfilled (VArr (map the ((slots s a)[i := Some v])))" "s\<lparr>slots := (slots s)(a := (slots s a)[i := Some v])\<rparr>"]
    by (simp add: pending_count_def Let_def)
next
  case (6 a i e s')
  then show ?thesis using settle_measure by simp
qed

text \<open>
  The queue empties: a job either settles a pending promise or leaves the queue one
  shorter.
\<close>

termination drain
proof (relation "measures [pending_count, \<lambda>s. length (jobs s)]")
  show "wf (measures [pending_count, \<lambda>s. length (jobs s)])" by simp
next
  fix s :: state and j js
  assume "jobs s = j # js"
  then show "(run_job j (s\<lparr>jobs := js\<rparr>), s) \<in> measures [pending_count, \<lambda>s. length (jobs s)]"
    using run_job_measure [of j "s\<lparr>jobs := js\<rparr>"] by (auto simp: pending_count_def)
qed

declare drain.simps [simp del]

text \<open>\<^verbatim>\<open>p.then(...)\<close>: the promise it returns is created, then the reaction attached.\<close>

definition then_children :: "pid \<Rightarrow> state \<Rightarrow> pid \<times> state" where
  "then_children p s = (let (d, s1) = new_promise s in (d, attach p (ToChildren d) s1))"

definition then_entry :: "dispatch_record \<Rightarrow> state \<Rightarrow> pid \<times> state" where
  "then_entry item s =
     (let (d, s1) = new_promise s in (d, attach (promise item) (ToEntry (listener item) d) s1))"

text \<open>
  \<^verbatim>\<open>Promise.all(ms)\<close>: a new aggregate with one empty slot per element; every element
  gets the element function of its index; an empty input fulfils the aggregate at once.
\<close>

fun all_attach :: "pid \<Rightarrow> nat \<Rightarrow> pid list \<Rightarrow> state \<Rightarrow> state" where
  "all_attach a i [] s = s"
| "all_attach a i (m # ms) s = all_attach a (Suc i) ms (attach m (ToAll a i) s)"

definition promise_all :: "pid list \<Rightarrow> state \<Rightarrow> pid \<times> state" where
  "promise_all ms s =
     (let (a, s1) = new_promise s;
          s2 = s1\<lparr>slots := (slots s1)(a := replicate (length ms) None)\<rparr>;
          s3 = all_attach a 0 ms s2
      in (a, if ms = [] then settle a (Fulfilled (VArr [])) s3 else s3))"

section \<open>The event bus\<close>

text \<open>
  Modelled from the spec: the event bus \<^verbatim>\<open>_.EventEmitter\<close> is not part of the sources.
  Handlers are kept in registration order; \<^verbatim>\<open>emit\<close> delivers synchronously and in
  order to the handlers registered when it starts, so a handler removed while a fan-out
  is under way is still delivered to.
\<close>

definition addListener :: "sid \<Rightarrow> state \<Rightarrow> state" where
  "addListener h s = s\<lparr>listeners := listeners s @ [h]\<rparr>"

definition removeListener :: "sid \<Rightarrow> state \<Rightarrow> state" where
  "removeListener h s = s\<lparr>listeners := removeAll h (listeners s)\<rparr>"

fun deliver :: "(sid \<Rightarrow> state \<Rightarrow> state option) \<Rightarrow> sid list \<Rightarrow> state \<Rightarrow> state option" where
  "deliver handler [] s = Some s"
| "deliver handler (h # hs) s =
     (case handler h s of None \<Rightarrow> None | Some s1 \<Rightarrow> deliver handler hs s1)"

section \<open>Publisher\<close>

subsection \<open>listen and listenOnce\<close>

text \<open>
  The function \<^verbatim>\<open>listen\<close> returns, lines 81 to 84, for subscription \<open>h\<close>. Only a
  function that a call of \<^verbatim>\<open>listen\<close> has returned can be called.
\<close>

definition unsubscribe :: "sid \<Rightarrow> state \<Rightarrow> state" where
  "unsubscribe h s =
     (if h < nsubs s
      then removeListener h (s\<lparr>aborted := (aborted s)(h := True), trace := trace s @ [Unsubscribed h]\<rparr>)
      else s)"

definition listen :: "fn \<Rightarrow> state \<Rightarrow> sid \<times> state" where
  "listen cb s =
     (let h = nsubs s
      in (h, addListener h
               (s\<lparr>nsubs := Suc h, aborted := (aborted s)(h := False), callback := (callback s)(h := cb)\<rparr>)))"

text \<open>
  \<^verbatim>\<open>listenOnce\<close>, lines 88 to 96. The callback it hands to \<^verbatim>\<open>listen\<close> is an arrow
  function, and an arrow function has no \<^verbatim>\<open>arguments\<close> of its own: the name denotes
  the \<^verbatim>\<open>arguments\<close> of the enclosing call of \<^verbatim>\<open>listenOnce\<close>, that is the callback
  and, when given, the context. The class body is strict code, so the assignment to
  \<^verbatim>\<open>bindContext\<close> does not change them.
\<close>

definition listenOnce :: "fid \<Rightarrow> val option \<Rightarrow> state \<Rightarrow> sid \<times> state" where
  "listenOnce cb bindContext s =
     (let arguments = VFun (User cb) # (case bindContext of None \<Rightarrow> [] | Some c \<Rightarrow> [c]);
          ctx = (case bindContext of None \<Rightarrow> VPublisher
                 | Some c \<Rightarrow> if truthy c then c else VPublisher)
      in listen (OnceWrapper (nsubs s) cb arguments ctx) s)"

subsection \<open>Calling a callback\<close>

text \<open>
  The first parameter \<open>again\<close> of the functions below is \<^verbatim>\<open>triggerSync\<close> as a user
  function can call it; \<open>triggerSync\<close> ties the knot.
\<close>

fun run_action :: "(val list \<Rightarrow> state \<Rightarrow> state option) \<Rightarrow> action \<Rightarrow> state \<Rightarrow> state option" where
  "run_action again (Unsubscribe h) s = Some (unsubscribe h s)"
| "run_action again (Subscribe cb) s = Some (snd (listen cb s))"
| "run_action again (Retrigger args) s = again args s"

fun run_actions :: "(val list \<Rightarrow> state \<Rightarrow> state option) \<Rightarrow> action list \<Rightarrow> state \<Rightarrow> state option" where
  "run_actions again [] s = Some s"
| "run_actions again (a # acts) s =
     (case run_action again a s of None \<Rightarrow> None | Some s1 \<Rightarrow> run_actions again acts s1)"

definition call_user ::
  "(val list \<Rightarrow> state \<Rightarrow> state option) \<Rightarrow> publisher_class \<Rightarrow> fid \<Rightarrow> val \<Rightarrow> val list \<Rightarrow> state
     \<Rightarrow> (val \<times> state) option" where
  "call_user again P f this args s =
     (let (acts, v) = body P f this args s
      in case run_actions again acts (s\<lparr>trace := trace s @ [Called f this args]\<rparr>) of
           None \<Rightarrow> None
         | Some s1 \<Rightarrow> Some (v, s1))"

text \<open>
  \<^verbatim>\<open>callback.apply(this, args)\<close>. For the arrow function of \<^verbatim>\<open>listenOnce\<close> (lines 90
  to 94) the receiver and the arguments of the call are not used.
\<close>

fun apply_fn ::
  "(val list \<Rightarrow> state \<Rightarrow> state option) \<Rightarrow> publisher_class \<Rightarrow> fn \<Rightarrow> val \<Rightarrow> val list \<Rightarrow> state
     \<Rightarrow> (val \<times> state) option" where
  "apply_fn again P (User f) this args s = call_user again P f this args s"
| "apply_fn again P (OnceWrapper u f captured ctx) this args s =
     call_user again P f ctx captured (unsubscribe u s)"

text \<open>The arrow function \<^verbatim>\<open>eventHandler\<close> of subscription \<open>h\<close>: lines 57 to 78.\<close>

definition eventHandler ::
  "(val list \<Rightarrow> state \<Rightarrow> state option) \<Rightarrow> publisher_class \<Rightarrow> val list \<Rightarrow> sid \<Rightarrow> state \<Rightarrow> state option" where
  "eventHandler again P args h s =
     (if aborted s h then Some s
      else
        (case apply_fn again P (callback s h) VPublisher args (s\<lparr>trace := trace s @ [Invoked h]\<rparr>) of
           None \<Rightarrow> None
         | Some (result, s1) \<Rightarrow>
             (case result of
                VPromise p \<Rightarrow>
                  (let s2 = s1\<lparr>trace := trace s1 @ [CanHandlePromiseQueried]\<rparr>
                   in if \<not> canHandlePromise P
                      then Some (s2\<lparr>trace := trace s2 @ [Warned (''Unhandled promise for '' @ eventType P)]\<rparr>)
                      else Some (s2\<lparr>dispatchPromises :=
                                   dispatchPromises s2 @ [\<lparr>promise = p, listener = callback s h\<rparr>]\<rparr>))
              | _ \<Rightarrow> Some s1)))"

text \<open>\<^verbatim>\<open>this.emitter.emit(this.eventType, args)\<close>.\<close>

definition emit ::
  "(val list \<Rightarrow> state \<Rightarrow> state option) \<Rightarrow> publisher_class \<Rightarrow> val list \<Rightarrow> state \<Rightarrow> state option" where
  "emit again P args s = deliver (eventHandler again P args) (listeners s) s"

subsection \<open>resolve and _handleDispatchPromises\<close>

text \<open>
  \<^verbatim>\<open>resolve\<close>, lines 150 to 157. The child publishers are not part of the sources:
  triggering one is an entry of the trace.
\<close>

definition resolve :: "val \<Rightarrow> state \<Rightarrow> val \<times> state" where
  "resolve v s =
     (case v of
        VPromise p \<Rightarrow> (let (d, s1) = then_children p s in (VPromise d, s1))
      | _ \<Rightarrow> (VUndef, s\<lparr>trace := trace s @ [Triggered Completed v]\<rparr>))"

text \<open>
  The same lines on a Publisher whose child publishers may be missing. The class never
  sets \<^verbatim>\<open>completed\<close> or \<^verbatim>\<open>failed\<close> (constructor, lines 18 to 21), and line 152 reads
  \<^verbatim>\<open>this.completed.asFunction\<close> without a test: on a Publisher without the completed
  child the call fails with a \<^verbatim>\<open>TypeError\<close>. Line 156 only builds the two continuations
  and reads neither property. \<open>resolve\<close> above is this function on a Publisher that has
  its children.
\<close>

record children =
  completed :: bool
  failed :: bool

datatype error = TypeError

definition resolve_on :: "children \<Rightarrow> val \<Rightarrow> state \<Rightarrow> error + val \<times> state" where
  "resolve_on this v s =
     (case v of
        VPromise p \<Rightarrow> (let (d, s1) = then_children p s in Inr (VPromise d, s1))
      | _ \<Rightarrow> if completed this
             then Inr (VUndef, s\<lparr>trace := trace s @ [Triggered Completed v]\<rparr>)
             else Inl TypeError)"

fun map_then :: "dispatch_record list \<Rightarrow> state \<Rightarrow> pid list \<times> state" where
  "map_then [] s = ([], s)"
| "map_then (item # items) s =
     (let (d, s1) = then_entry item s;
          (ds, s2) = map_then items s1
      in (d # ds, s2))"

text \<open>
  \<^verbatim>\<open>_handleDispatchPromises\<close>, lines 162 to 184, in two parts: the read and the clearing
  of the field, and the rest, which works on the local variable \<^verbatim>\<open>promises\<close>.
\<close>

definition resolve_records :: "dispatch_record list \<Rightarrow> state \<Rightarrow> val \<times> state" where
  "resolve_records promises s =
     (case promises of
        [] \<Rightarrow> (VUndef, s)
      | [item] \<Rightarrow> resolve (VPromise (promise item)) s
      | _ \<Rightarrow>
          (let (mappedPromises, s1) = map_then promises s;
               (joinedPromise, s2) = promise_all mappedPromises s1
           in resolve (VPromise joinedPromise) s2))"

definition handleDispatchPromises :: "state \<Rightarrow> val \<times> state" where
  "handleDispatchPromises s =
     (let promises = dispatchPromises s
      in resolve_records promises (s\<lparr>dispatchPromises := []\<rparr>))"

subsection \<open>triggerSync\<close>

text \<open>Lines 122 to 126: the arguments after \<^verbatim>\<open>preEmit\<close>.\<close>

definition emit_args :: "publisher_class \<Rightarrow> val list \<Rightarrow> val list" where
  "emit_args P args =
     (let preResult = preEmit P args
      in if preResult \<noteq> VUndef
         then (if isArguments preResult then elements preResult else concat_js [] preResult)
         else args)"

definition triggerSync_body ::
  "(val list \<Rightarrow> state \<Rightarrow> state option) \<Rightarrow> publisher_class \<Rightarrow> val list \<Rightarrow> state \<Rightarrow> state option" where
  "triggerSync_body again P args0 s =
     (let args = emit_args P args0
      in if truthy (shouldEmit P args)
         then
           (case emit again P args (s\<lparr>dispatchPromises := []\<rparr>) of
              None \<Rightarrow> None
            | Some s1 \<Rightarrow> Some (snd (handleDispatchPromises s1)))
         else Some s)"

text \<open>
  \<^verbatim>\<open>triggerSync\<close>, lines 121 to 134. A user function may call it again from inside the
  fan-out, and nothing bounds how often: the first argument is the depth of nested calls
  the run may use, and \<open>None\<close> is a run that needs more. \<^verbatim>\<open>trigger\<close>, lines 139 to
  142, which hands the same call to the next tick, has no definition here.
\<close>

primrec triggerSync :: "nat \<Rightarrow> publisher_class \<Rightarrow> val list \<Rightarrow> state \<Rightarrow> state option" where
  "triggerSync 0 P args s = None"
| "triggerSync (Suc n) P args s = triggerSync_body (triggerSync n P) P args s"

subsection \<open>Runs\<close>

text \<open>
  What the owner of a Publisher and the environment can do, one after the other: call
  \<^verbatim>\<open>listen\<close>, \<^verbatim>\<open>listenOnce\<close>, an unsubscribe function, \<^verbatim>\<open>triggerSync\<close> or
  \<^verbatim>\<open>resolve\<close>; settle a promise; let the queued promise jobs run.
\<close>

datatype op =
    Listen fn
  | ListenOnce fid "val option"
  | Unsub sid
  | TriggerSync "val list"
  | Resolve val
  | Settle pid outcome
  | RunJobs

fun exec :: "nat \<Rightarrow> publisher_class \<Rightarrow> op \<Rightarrow> state \<Rightarrow> state option" where
  "exec n P (Listen cb) s = Some (snd (listen cb s))"
| "exec n P (ListenOnce f c) s = Some (snd (listenOnce f c s))"
| "exec n P (Unsub h) s = Some (unsubscribe h s)"
| "exec n P (TriggerSync args) s = triggerSync n P args s"
| "exec n P (Resolve v) s = Some (snd (resolve v s))"
| "exec n P (Settle p out) s = Some (settle p out s)"
| "exec n P RunJobs s = Some (drain s)"

fun execs :: "nat \<Rightarrow> publisher_class \<Rightarrow> op list \<Rightarrow> state \<Rightarrow> state option" where
  "execs n P [] s = Some s"
| "execs n P (x # xs) s = (case exec n P x s of None \<Rightarrow> None | Some s1 \<Rightarrow> execs n P xs s1)"

section \<open>Auxiliary definitions\<close>

text \<open>
  The argument list the spec describes for a result \<open>v\<close> of \<^verbatim>\<open>preEmit\<close>: the original
  arguments when \<open>v\<close> is undefined, \<open>v\<close> itself when it is an ordered sequence, and the
  one-element list of \<open>v\<close> otherwise.
\<close>

fun spec_args :: "val \<Rightarrow> val list \<Rightarrow> val list" where
  "spec_args VUndef args = args"
| "spec_args (VArgs xs) args = xs"
| "spec_args (VArr xs) args = xs"
| "spec_args v args = [v]"

text \<open>What the outside world sees of one promise job: only the continuations of
  \<^verbatim>\<open>resolve\<close> trigger a child publisher.\<close>

fun job_events :: "job \<Rightarrow> event list" where
  "job_events (Job (ToChildren d) (Fulfilled v)) = [Triggered Completed v]"
| "job_events (Job (ToChildren d) (Rejected e)) = [Triggered Failed e]"
| "job_events j = []"

text \<open>
  A step of the promise machinery: it leaves the subscriptions and the list of dispatch
  records alone, and all it adds to the trace is the triggering of child publishers.
\<close>

fun is_trigger :: "event \<Rightarrow> bool" where
  "is_trigger (Triggered c v) = True"
| "is_trigger e = False"

definition promise_step :: "state \<Rightarrow> state \<Rightarrow> bool" where
  "promise_step s t \<longleftrightarrow> listeners t = listeners s \<and> nsubs t = nsubs s \<and> aborted t = aborted s
     \<and> callback t = callback s \<and> dispatchPromises t = dispatchPromises s
     \<and> (\<exists>ext. trace t = trace s @ ext \<and> list_all is_trigger ext)"

text \<open>
  No \<open>Invoked h\<close> follows an \<open>Unsubscribed h\<close> in a trace; and a state in which this
  holds of the trace so far and in which subscription \<open>h\<close>, if its unsubscribe function
  has been called, exists and is aborted.
\<close>

fun never_after :: "sid \<Rightarrow> event list \<Rightarrow> bool" where
  "never_after h [] = True"
| "never_after h (e # es) = ((e \<noteq> Unsubscribed h \<or> Invoked h \<notin> set es) \<and> never_after h es)"

definition sub_ok :: "sid \<Rightarrow> state \<Rightarrow> bool" where
  "sub_ok h s \<longleftrightarrow>
     (Unsubscribed h \<in> set (trace s) \<longrightarrow> h < nsubs s \<and> aborted s h) \<and> never_after h (trace s)"

text \<open>A function on states that keeps \<open>sub_ok h\<close> wherever it returns.\<close>

definition keeps :: "sid \<Rightarrow> ('a \<Rightarrow> state \<Rightarrow> state option) \<Rightarrow> bool" where
  "keeps h f \<longleftrightarrow> (\<forall>x s s'. sub_ok h s \<longrightarrow> f x s = Some s' \<longrightarrow> sub_ok h s')"

text \<open>Two states that differ in the promise heap at most.\<close>

definition heap_only :: "state \<Rightarrow> state \<Rightarrow> bool" where
  "heap_only s t \<longleftrightarrow> t = s\<lparr>heap := heap t\<rparr>"

text \<open>Two states that differ in the promise heap and the job queue at most.\<close>

definition promise_only :: "state \<Rightarrow> state \<Rightarrow> bool" where
  "promise_only s t \<longleftrightarrow> t = s\<lparr>heap := heap t, jobs := jobs t\<rparr>"

text \<open>
  What the \<^verbatim>\<open>then\<close> calls of line 175 leave behind, the first new promise being \<open>m\<close>:
  the reactions added to a pending promise \<open>q\<close>, one per record that holds \<open>q\<close>, and the
  jobs queued for the records whose promise is already settled in the heap \<open>h\<close>.
\<close>

fun entry_reactions :: "pid \<Rightarrow> nat \<Rightarrow> dispatch_record list \<Rightarrow> reaction list" where
  "entry_reactions q m [] = []"
| "entry_reactions q m (r # rs) =
     (if promise r = q then [ToEntry (listener r) m] else []) @ entry_reactions q (Suc m) rs"

fun entry_jobs :: "pstate list \<Rightarrow> nat \<Rightarrow> dispatch_record list \<Rightarrow> job list" where
  "entry_jobs h m [] = []"
| "entry_jobs h m (r # rs) =
     (case h ! promise r of Pending qs \<Rightarrow> [] | Settled out \<Rightarrow> [Job (ToEntry (listener r) m) out])
       @ entry_jobs h (Suc m) rs"

definition after_reactions :: "pstate \<Rightarrow> reaction list \<Rightarrow> pstate" where
  "after_reactions c new = (case c of Pending qs \<Rightarrow> Pending (qs @ new) | Settled out \<Rightarrow> Settled out)"

text \<open>
  The promise a reaction settles when it has run, and the same for a queued job. A state
  is \<open>closed\<close> when every reaction, attached or queued, settles a promise of the heap:
  \<open>init\<close> is, and every operation keeps a closed state closed.
\<close>

fun target :: "reaction \<Rightarrow> pid" where
  "target (ToChildren d) = d"
| "target (ToEntry l d) = d"
| "target (ToAll a i) = a"

fun job_target :: "job \<Rightarrow> pid" where
  "job_target (Job r out) = target r"

fun cell_targets :: "pstate \<Rightarrow> pid list" where
  "cell_targets (Pending qs) = map target qs"
| "cell_targets (Settled out) = []"

definition closed :: "state \<Rightarrow> bool" where
  "closed s \<longleftrightarrow>
     (\<forall>c\<in>set (heap s). \<forall>d\<in>set (cell_targets c). d < length (heap s))
   \<and> (\<forall>j\<in>set (jobs s). job_target j < length (heap s))"

text \<open>
  The outcome of the mapped promise of a record with the listener \<open>l\<close>, from the outcome
  of the record's promise; and the jobs of the continuation of \<^verbatim>\<open>resolve\<close> whose
  \<^verbatim>\<open>then\<close> returned the promise \<open>d\<close>.
\<close>

definition mapped :: "fn \<Rightarrow> outcome \<Rightarrow> outcome" where
  "mapped l out = (case out of Fulfilled v \<Rightarrow> Fulfilled (VEntry l v) | Rejected e \<Rightarrow> Rejected e)"

fun is_cjob :: "pid \<Rightarrow> job \<Rightarrow> bool" where
  "is_cjob d (Job r out) = (r = ToChildren d)"

text \<open>The jobs \<^verbatim>\<open>drain\<close> runs, in the order in which it runs them.\<close>

function drain_jobs :: "state \<Rightarrow> job list" where
  "drain_jobs s = (case jobs s of [] \<Rightarrow> [] | j # js \<Rightarrow> j # drain_jobs (run_job j (s\<lparr>jobs := js\<rparr>)))"
  by pat_completeness auto

termination drain_jobs
proof (relation "measures [pending_count, \<lambda>s. length (jobs s)]")
  show "wf (measures [pending_count, \<lambda>s. length (jobs s)])" by simp
next
  fix s :: state and j js
  assume "jobs s = j # js"
  then show "(run_job j (s\<lparr>jobs := js\<rparr>), s) \<in> measures [pending_count, \<lambda>s. length (jobs s)]"
    using run_job_measure [of j "s\<lparr>jobs := js\<rparr>"] by (auto simp: pending_count_def)
qed

declare drain_jobs.simps [simp del]

text \<open>
  The states a cycle with the records \<open>rs\<close> goes through once \<^verbatim>\<open>_handleDispatchPromises\<close>
  has returned, whatever was attached or queued before, and whatever the order in which
  promises are settled and jobs run afterwards. \<open>N\<close> is the size of the heap when the
  cycle resolved, so the mapped promise of record \<open>i\<close> is \<open>N + i\<close>, the aggregate
  \<open>N + length rs\<close> and the promise returned by \<^verbatim>\<open>resolve\<close> the one after it; \<open>L\<close> are
  the jobs that have run since. The reactions and jobs of the cycle are those that settle
  one of these promises; all others settle a promise below \<open>N\<close>.
  \<^item> \<open>our_job\<close>: a job of the cycle is one of its reactions, with the outcome of the
    promise the reaction was attached to.
  \<^item> \<open>rec_ok\<close>: a pending record promise carries the mapping reaction of its record; once
    it is settled, that reaction is queued or has run.
  \<^item> \<open>map_ok\<close>: a pending mapped promise carries its element function and its slot is
    empty; a settled one has the mapped outcome of its record, and its element function is
    queued or has run.
  \<^item> \<open>agg_ok\<close>: while the aggregate is pending a slot is empty and the continuation of
    \<^verbatim>\<open>resolve\<close> is neither queued nor run; once it is settled, with all slots or with
    the error of a record, the continuation is queued once with that outcome, or has run
    once with it.
\<close>

definition our_job :: "dispatch_record list \<Rightarrow> nat \<Rightarrow> state \<Rightarrow> job \<Rightarrow> bool" where
  "our_job rs N s j \<longleftrightarrow>
     (\<exists>i<length rs. \<exists>out. j = Job (ToEntry (listener (rs ! i)) (N + i)) out
         \<and> heap s ! promise (rs ! i) = Settled out)
   \<or> (\<exists>i<length rs. \<exists>out. j = Job (ToAll (N + length rs) i) out \<and> heap s ! (N + i) = Settled out)
   \<or> (\<exists>out. j = Job (ToChildren (N + length rs + 1)) out \<and> heap s ! (N + length rs) = Settled out)"

definition our_reaction :: "dispatch_record list \<Rightarrow> nat \<Rightarrow> pid \<Rightarrow> reaction \<Rightarrow> bool" where
  "our_reaction rs N q r \<longleftrightarrow>
     (\<exists>k<length rs. r = ToEntry (listener (rs ! k)) (N + k) \<and> promise (rs ! k) = q)"

definition rec_ok :: "dispatch_record list \<Rightarrow> nat \<Rightarrow> state \<Rightarrow> nat \<Rightarrow> bool" where
  "rec_ok rs N s i \<longleftrightarrow>
     (\<forall>qs. heap s ! promise (rs ! i) = Pending qs \<longrightarrow> ToEntry (listener (rs ! i)) (N + i) \<in> set qs)
   \<and> (\<forall>out. heap s ! promise (rs ! i) = Settled out \<longrightarrow>
         Job (ToEntry (listener (rs ! i)) (N + i)) out \<in> set (jobs s)
       \<or> heap s ! (N + i) = Settled (mapped (listener (rs ! i)) out))"

definition map_ok :: "dispatch_record list \<Rightarrow> nat \<Rightarrow> state \<Rightarrow> nat \<Rightarrow> bool" where
  "map_ok rs N s i \<longleftrightarrow>
     (\<forall>qs. heap s ! (N + i) = Pending qs \<longrightarrow>
         qs = [ToAll (N + length rs) i] \<and> slots s (N + length rs) ! i = None)
   \<and> (\<forall>out'. heap s ! (N + i) = Settled out' \<longrightarrow>
         (\<exists>out. heap s ! promise (rs ! i) = Settled out \<and> out' = mapped (listener (rs ! i)) out)
       \<and> (Job (ToAll (N + length rs) i) out' \<in> set (jobs s)
          \<or> (case out' of Fulfilled x \<Rightarrow> slots s (N + length rs) ! i = Some x
                | Rejected e \<Rightarrow> (\<exists>out. heap s ! (N + length rs) = Settled out))))
   \<and> (\<forall>x. slots s (N + length rs) ! i = Some x \<longrightarrow> heap s ! (N + i) = Settled (Fulfilled x))"

definition agg_ok :: "dispatch_record list \<Rightarrow> nat \<Rightarrow> job list \<Rightarrow> state \<Rightarrow> bool" where
  "agg_ok rs N L s \<longleftrightarrow>
     (\<forall>qs. heap s ! (N + length rs) = Pending qs \<longrightarrow>
         qs = [ToChildren (N + length rs + 1)]
       \<and> \<not> filled (slots s (N + length rs)) \<and> heap s ! (N + length rs + 1) = Pending []
       \<and> filter (is_cjob (N + length rs + 1)) (jobs s) = []
       \<and> filter (is_cjob (N + length rs + 1)) L = [])
   \<and> (\<forall>out. heap s ! (N + length rs) = Settled out \<longrightarrow>
         (case out of
            Fulfilled x \<Rightarrow> filled (slots s (N + length rs)) \<and> x = VArr (map the (slots s (N + length rs)))
          | Rejected e \<Rightarrow> (\<exists>i<length rs. heap s ! (N + i) = Settled (Rejected e)))
       \<and> (filter (is_cjob (N + length rs + 1)) (jobs s) = [Job (ToChildren (N + length rs + 1)) out]
            \<and> filter (is_cjob (N + length rs + 1)) L = []
            \<and> heap s ! (N + length rs + 1) = Pending []
          \<or> filter (is_cjob (N + length rs + 1)) (jobs s) = []
            \<and> filter (is_cjob (N + length rs + 1)) L = [Job (ToChildren (N + length rs + 1)) out]))"

definition cycle_inv :: "dispatch_record list \<Rightarrow> nat \<Rightarrow> job list \<Rightarrow> state \<Rightarrow> bool" where
  "cycle_inv rs N L s \<longleftrightarrow>
     length (heap s) = N + length rs + 2 \<and> length (slots s (N + length rs)) = length rs
   \<and> (\<forall>r\<in>set rs. promise r < N)
   \<and> (\<forall>j\<in>set (jobs s). job_target j < N \<or> our_job rs N s j)
   \<and> (\<forall>j\<in>set L. job_target j < N \<or> is_cjob (N + length rs + 1) j \<or> job_events j = [])
   \<and> (\<forall>q<N. \<forall>qs. heap s ! q = Pending qs \<longrightarrow> (\<forall>r\<in>set qs. target r < N \<or> our_reaction rs N q r))
   \<and> (\<forall>i<length rs. rec_ok rs N s i \<and> map_ok rs N s i)
   \<and> agg_ok rs N L s"

text \<open>
  A state and a list of jobs run in which nothing is attached, queued or run that settles
  a promise below \<open>N\<close>: no reaction but those of the cycle.
\<close>

definition alone :: "nat \<Rightarrow> job list \<Rightarrow> state \<Rightarrow> bool" where
  "alone N L s \<longleftrightarrow>
     (\<forall>j\<in>set (jobs s). N \<le> job_target j) \<and> (\<forall>j\<in>set L. N \<le> job_target j)
   \<and> (\<forall>c\<in>set (heap s). \<forall>d\<in>set (cell_targets c). N \<le> d)"

text \<open>Settled promises stay as they are.\<close>

definition grows :: "state \<Rightarrow> state \<Rightarrow> bool" where
  "grows s t \<longleftrightarrow> (\<forall>q out. heap s ! q = Settled out \<longrightarrow> heap t ! q = Settled out)"

text \<open>
  The value the completed child is triggered with: the entries in record order. And what
  happens after \<^verbatim>\<open>triggerSync\<close> has returned: the code that holds a promise settles it,
  and the engine runs the queued jobs. \<open>is_old N\<close> holds of the steps that settle a
  promise that existed when the cycle resolved: the promises the cycle creates are in
  nobody else's hands. \<open>ran evs s\<close> are the jobs that run in the course of the steps
  \<open>evs\<close> from the state \<open>s\<close>.
\<close>

definition entries :: "dispatch_record list \<Rightarrow> (nat \<Rightarrow> val) \<Rightarrow> val" where
  "entries rs V = VArr (map (\<lambda>i. VEntry (listener (rs ! i)) (V i)) [0..<length rs])"

datatype outside = Settles pid outcome | RunsJobs

fun outside_step :: "outside \<Rightarrow> state \<Rightarrow> state" where
  "outside_step (Settles p out) s = settle p out s"
| "outside_step RunsJobs s = drain s"

definition later :: "outside list \<Rightarrow> state \<Rightarrow> state" where
  "later evs s = fold outside_step evs s"

fun outside_jobs :: "outside \<Rightarrow> state \<Rightarrow> job list" where
  "outside_jobs (Settles p out) s = []"
| "outside_jobs RunsJobs s = drain_jobs s"

fun ran :: "outside list \<Rightarrow> state \<Rightarrow> job list" where
  "ran [] s = []"
| "ran (ev # evs) s = outside_jobs ev s @ ran evs (outside_step ev s)"

fun is_old :: "nat \<Rightarrow> outside \<Rightarrow> bool" where
  "is_old N (Settles p out) = (p < N)"
| "is_old N RunsJobs = True"

text \<open>
  The children the continuation of \<^verbatim>\<open>resolve\<close> with the promise \<open>d\<close> has triggered,
  among the jobs \<open>L\<close> that have run.
\<close>

definition triggered :: "pid \<Rightarrow> job list \<Rightarrow> event list" where
  "triggered d L = concat (map job_events (filter (is_cjob d) L))"

text \<open>A function on states that keeps a closed state closed wherever it returns.\<close>

definition keeps_closed :: "('a \<Rightarrow> state \<Rightarrow> state option) \<Rightarrow> bool" where
  "keeps_closed f \<longleftrightarrow> (\<forall>x s s'. closed s \<longrightarrow> f x s = Some s' \<longrightarrow> closed s')"

section \<open>Example publishers\<close>

text \<open>
  A Publisher that tracks promises and whose \<^verbatim>\<open>shouldEmit\<close> refuses the argument
  list \<open>[0]\<close>; its user function number \<open>f\<close> returns the promise number \<open>f\<close>.
\<close>

definition gated_class :: publisher_class where
  "gated_class = \<lparr>eventType = ''event'', preEmit = (\<lambda>args. VUndef),
     shouldEmit = (\<lambda>args. VBool (args \<noteq> [VNum 0])),
     canHandlePromise = True, body = (\<lambda>f this args s. ([], VPromise f))\<rparr>"

definition one_listener :: state where
  "one_listener = snd (listen (User 0) (snd (new_promise init)))"

text \<open>
  A Publisher whose \<^verbatim>\<open>preEmit\<close> returns nothing for \<open>[0]\<close>, an \<^verbatim>\<open>arguments\<close>
  object for \<open>[1]\<close>, an array for \<open>[2]\<close> and a number otherwise, and whose
  \<^verbatim>\<open>shouldEmit\<close> refuses an empty argument list.
\<close>

definition rewriting_class :: publisher_class where
  "rewriting_class = \<lparr>eventType = ''event'',
     preEmit = (\<lambda>args. if args = [VNum 0] then VUndef
                        else if args = [VNum 1] then VArgs [VNum 10, VNum 11]
                        else if args = [VNum 2] then VArr [VNum 20, VNum 21]
                        else VNum 30),
     shouldEmit = (\<lambda>args. VBool (args \<noteq> [])),
     canHandlePromise = True, body = (\<lambda>f this args s. ([], VUndef))\<rparr>"

text \<open>The same state with promise \<open>0\<close> already fulfilled, and already rejected.\<close>

definition settled_listener :: state where
  "settled_listener = settle 0 (Fulfilled (VNum 5)) one_listener"

definition rejected_listener :: state where
  "rejected_listener = settle 0 (Rejected (VStr ''E'')) one_listener"

text \<open>The state a cycle of \<open>gated_class\<close> started on \<open>[1]\<close> reaches at the end of its fan-out.\<close>

definition fanout :: "state \<Rightarrow> state" where
  "fanout s = the (emit (triggerSync 0 gated_class) gated_class [VNum 1] (s\<lparr>dispatchPromises := []\<rparr>))"

text \<open>
  Two promises and two subscriptions, of the user functions \<open>0\<close> and \<open>1\<close>; a Publisher
  whose function \<open>0\<close> calls the unsubscribe function of subscription \<open>1\<close>; one whose
  functions do nothing and return nothing.
\<close>

definition two_listeners :: state where
  "two_listeners = snd (listen (User 1) (snd (listen (User 0) (snd (new_promise (snd (new_promise init)))))))"

definition unsub_class :: publisher_class where
  "unsub_class = \<lparr>eventType = ''event'', preEmit = (\<lambda>args. VUndef), shouldEmit = (\<lambda>args. VBool True),
     canHandlePromise = True,
     body = (\<lambda>f this args s. if f = 0 then ([Unsubscribe 1], VUndef) else ([], VUndef))\<rparr>"

definition silent_class :: publisher_class where
  "silent_class = \<lparr>eventType = ''event'', preEmit = (\<lambda>args. VUndef), shouldEmit = (\<lambda>args. VBool True),
     canHandlePromise = True, body = (\<lambda>f this args s. ([], VUndef))\<rparr>"

text \<open>
  A Publisher whose function \<open>0\<close> returns promise \<open>0\<close> when called with \<open>[0]\<close> and
  promise \<open>1\<close> otherwise, and whose function \<open>1\<close>, called with \<open>[0]\<close>, calls
  \<^verbatim>\<open>triggerSync(1)\<close>.
\<close>

definition reentrant_class :: publisher_class where
  "reentrant_class = \<lparr>eventType = ''event'', preEmit = (\<lambda>args. VUndef), shouldEmit = (\<lambda>args. VBool True),
     canHandlePromise = True,
     body = (\<lambda>f this args s.
       if f = 0 then ([], VPromise (if args = [VNum 0] then 0 else 1))
       else (if args = [VNum 0] then [Retrigger [VNum 1]] else [], VUndef))\<rparr>"

text \<open>Runs used as examples.\<close>

definition busy_run :: "op list" where
  "busy_run = [TriggerSync [VNum 1], Settle 0 (Fulfilled (VNum 5)), RunJobs, TriggerSync [VNum 2]]"

definition unsub_run :: "op list" where
  "unsub_run = [TriggerSync [VNum 1], TriggerSync [VNum 2]]"

text \<open>The records of a cycle of \<open>gated_class\<close> on \<open>two_listeners\<close>, and values for them.\<close>

definition two_records :: "dispatch_record list" where
  "two_records = [\<lparr>promise = 0, listener = User 0\<rparr>, \<lparr>promise = 1, listener = User 1\<rparr>]"

definition two_values :: "nat \<Rightarrow> val" where
  "two_values i = VNum (5 + int i)"

text \<open>The state after one cycle on \<open>two_listeners\<close>: both promises are tracked and pending.\<close>

definition tracked_once :: state where
  "tracked_once = the (triggerSync (Suc 0) gated_class [VNum 1] two_listeners)"

section \<open>Shared lemmas\<close>

lemma emit_args_spec: "emit_args P args = spec_args (preEmit P args) args"
  by (cases "preEmit P args") (simp_all add: emit_args_def)

lemma resolve_on_children: "completed this \<Longrightarrow> resolve_on this v s = Inr (resolve v s)"
  by (cases v) (simp_all add: resolve_on_def resolve_def split_def Let_def)

lemma drain_Nil: "jobs s = [] \<Longrightarrow> drain s = s"
  by (subst drain.simps) simp

lemma drain_Cons: "jobs s = j # js \<Longrightarrow> drain s = drain (run_job j (s\<lparr>jobs := js\<rparr>))"
  by (subst drain.simps) simp

lemma settle_trace: "trace (settle p out s) = trace s"
  by (simp add: settle_def split: pstate.splits)

lemma settle_jobs: "\<exists>new. jobs (settle p out s) = jobs s @ new"
  by (simp add: settle_def split: pstate.splits)

lemma run_job_trace: "trace (run_job j s) = trace s @ job_events j"
  by (cases "(j, s)" rule: run_job.cases) (simp_all add: settle_trace Let_def)

lemma run_job_jobs: "\<exists>new. jobs (run_job j s) = jobs s @ new"
proof (cases "(j, s)" rule: run_job.cases)
  case (1 d v s')
  then show ?thesis using settle_jobs [of d "Fulfilled VUndef" "s\<lparr>trace := trace s @ [Triggered Completed v]\<rparr>"] by simp
next
  case (2 d e s')
  then show ?thesis using settle_jobs [of d "Fulfilled VUndef" "s\<lparr>trace := trace s @ [Triggered Failed e]\<rparr>"] by simp
next
  case (3 l d v s')
  then show ?thesis using settle_jobs by simp
next
  case (4 l d e s')
  then show ?thesis using settle_jobs by simp
next
  case (5 a i v s')
  then show ?thesis
    using settle_jobs [of a "Fulfilled (VArr (map the ((slots s a)[i := Some v])))" "s\<lparr>slots := (slots s)(a := (slots s a)[i := Some v])\<rparr>"]
    by (simp add: Let_def)
next
  case (6 a i e s')
  then show ?thesis using settle_jobs by simp
qed

lemma drain_runs_queue:
  "\<exists>post. trace (drain s) = trace s @ concat (map job_events (jobs s)) @ post"
proof (induction s rule: drain.induct)
  case (1 s)
  show ?case
  proof (cases "jobs s")
    case Nil
    then show ?thesis by (simp add: drain_Nil)
  next
    case (Cons j js)
    obtain new where new: "jobs (run_job j (s\<lparr>jobs := js\<rparr>)) = js @ new"
      using run_job_jobs [of j "s\<lparr>jobs := js\<rparr>"] by auto
    from "1.IH" [OF Cons] obtain post where
      "trace (drain (run_job j (s\<lparr>jobs := js\<rparr>)))
         = trace (run_job j (s\<lparr>jobs := js\<rparr>)) @ concat (map job_events (js @ new)) @ post"
      using new by auto
    then show ?thesis using Cons by (simp add: drain_Cons run_job_trace)
  qed
qed

lemma handle_single:
  assumes "dispatchPromises s = [r]"
  shows "handleDispatchPromises s =
           (VPromise (length (heap s)),
            attach (promise r) (ToChildren (length (heap s)))
              (s\<lparr>dispatchPromises := [], heap := heap s @ [Pending []]\<rparr>))"
  using assms
  by (simp add: handleDispatchPromises_def resolve_records_def resolve_def then_children_def new_promise_def)

lemma single_pending:
  assumes "dispatchPromises s = [r]" and "promise r < length (heap s)"
    and "heap s ! promise r = Pending rs"
  shows "snd (handleDispatchPromises s) =
           s\<lparr>dispatchPromises := [],
             heap := (heap s @ [Pending []])[promise r := Pending (rs @ [ToChildren (length (heap s))])]\<rparr>"
  using assms by (simp add: handle_single attach_def nth_append)

lemma single_settled:
  assumes "dispatchPromises s = [r]" and "promise r < length (heap s)"
    and "heap s ! promise r = Settled out"
  shows "snd (handleDispatchPromises s) =
           s\<lparr>dispatchPromises := [], heap := heap s @ [Pending []],
             jobs := jobs s @ [Job (ToChildren (length (heap s))) out]\<rparr>"
  using assms by (simp add: handle_single attach_def nth_append)

lemma single_later:
  assumes "dispatchPromises s = [r]" and "promise r < length (heap s)"
    and "heap s ! promise r = Pending rs"
  shows "\<exists>pre post. trace (drain (settle (promise r) out (snd (handleDispatchPromises s))))
           = trace s @ pre @ job_events (Job (ToChildren (length (heap s))) out) @ post"
proof -
  let ?d = "length (heap s)"
  let ?s3 = "settle (promise r) out (snd (handleDispatchPromises s))"
  have j: "jobs ?s3 = jobs s @ map (\<lambda>x. Job x out) rs @ [Job (ToChildren ?d) out]"
    using assms by (simp add: single_pending [OF assms] settle_def)
  have t: "trace ?s3 = trace s"
    using assms by (simp add: single_pending [OF assms] settle_trace)
  from drain_runs_queue [of ?s3] obtain post where
    "trace (drain ?s3) = trace ?s3 @ concat (map job_events (jobs ?s3)) @ post" by blast
  then have "trace (drain ?s3) = trace s @ (concat (map job_events (jobs s @ map (\<lambda>x. Job x out) rs)))
      @ job_events (Job (ToChildren ?d) out) @ post"
    by (simp add: j t)
  then show ?thesis by blast
qed

lemma single_later_quiet:
  assumes "dispatchPromises s = [r]" and "promise r < length (heap s)"
    and "heap s ! promise r = Pending []" and "jobs s = []"
  shows "trace (drain (settle (promise r) out (snd (handleDispatchPromises s))))
           = trace s @ job_events (Job (ToChildren (length (heap s))) out)"
proof -
  define d where "d = length (heap s)"
  define s3 where "s3 = settle (promise r) out (snd (handleDispatchPromises s))"
  have s3: "s3 = s\<lparr>dispatchPromises := [],
             heap := (heap s @ [Pending []])[promise r := Settled out],
             jobs := [Job (ToChildren d) out]\<rparr>"
    using assms by (simp add: s3_def d_def single_pending [OF assms(1,2,3)] settle_def)
  define s4 where "s4 = run_job (Job (ToChildren d) out) (s3\<lparr>jobs := []\<rparr>)"
  have "jobs s4 = []"
    using assms(2) by (cases out) (simp_all add: s4_def s3 d_def settle_def nth_append)
  moreover have "drain s3 = drain s4"
    unfolding s4_def by (rule drain_Cons) (simp add: s3)
  ultimately have "drain s3 = s4"
    by (simp add: drain_Nil)
  then show ?thesis
    unfolding s3_def [symmetric] d_def [symmetric] by (simp add: s4_def run_job_trace s3)
qed

lemma single_already:
  assumes "dispatchPromises s = [r]" and "promise r < length (heap s)"
    and "heap s ! promise r = Settled out"
  shows "\<exists>pre post. trace (drain (snd (handleDispatchPromises s)))
           = trace s @ pre @ job_events (Job (ToChildren (length (heap s))) out) @ post"
proof -
  let ?d = "length (heap s)"
  let ?s2 = "snd (handleDispatchPromises s)"
  from drain_runs_queue [of ?s2] obtain post where
    "trace (drain ?s2) = trace ?s2 @ concat (map job_events (jobs ?s2)) @ post" by blast
  then have "trace (drain ?s2) = trace s @ concat (map job_events (jobs s))
      @ job_events (Job (ToChildren ?d) out) @ post"
    by (simp add: single_settled [OF assms])
  then show ?thesis by blast
qed

lemma Some_the: "map_option f x = Some y \<Longrightarrow> x = Some (the x)"
  by (cases x) simp_all

lemma fanout_one:
  "emit (triggerSync 0 gated_class) gated_class [VNum 1] (one_listener\<lparr>dispatchPromises := []\<rparr>)
     = Some (fanout one_listener)"
proof -
  have "map_option trace (emit (triggerSync 0 gated_class) gated_class [VNum 1] (one_listener\<lparr>dispatchPromises := []\<rparr>))
     = Some [Invoked 0, Called 0 VPublisher [VNum 1], CanHandlePromiseQueried]"
    by code_simp
  then show ?thesis unfolding fanout_def by (rule Some_the)
qed

lemma fanout_settled:
  "emit (triggerSync 0 gated_class) gated_class [VNum 1] (settled_listener\<lparr>dispatchPromises := []\<rparr>)
     = Some (fanout settled_listener)"
proof -
  have "map_option trace (emit (triggerSync 0 gated_class) gated_class [VNum 1] (settled_listener\<lparr>dispatchPromises := []\<rparr>))
     = Some [Invoked 0, Called 0 VPublisher [VNum 1], CanHandlePromiseQueried]"
    by code_simp
  then show ?thesis unfolding fanout_def by (rule Some_the)
qed

lemma fanout_rejected:
  "emit (triggerSync 0 gated_class) gated_class [VNum 1] (rejected_listener\<lparr>dispatchPromises := []\<rparr>)
     = Some (fanout rejected_listener)"
proof -
  have "map_option trace (emit (triggerSync 0 gated_class) gated_class [VNum 1] (rejected_listener\<lparr>dispatchPromises := []\<rparr>))
     = Some [Invoked 0, Called 0 VPublisher [VNum 1], CanHandlePromiseQueried]"
    by code_simp
  then show ?thesis unfolding fanout_def by (rule Some_the)
qed

lemma promise_step_refl: "promise_step s s"
  by (simp add: promise_step_def)

lemma promise_step_trans: "promise_step s t \<Longrightarrow> promise_step t u \<Longrightarrow> promise_step s u"
  unfolding promise_step_def
  by (elim conjE exE) (intro conjI; (simp; fail)?; rule_tac x = "ext @ exta" in exI; simp)

lemma trace_step: "list_all is_trigger ext \<Longrightarrow> promise_step s (s\<lparr>trace := trace s @ ext\<rparr>)"
  by (simp add: promise_step_def)

lemma slots_step: "promise_step s (s\<lparr>slots := x\<rparr>)"
  by (simp add: promise_step_def)

lemma jobs_step: "promise_step s (s\<lparr>jobs := x\<rparr>)"
  by (simp add: promise_step_def)

lemma attach_step: "promise_step s (attach p r s)"
  by (simp add: promise_step_def attach_def split: pstate.splits)

lemma settle_step: "promise_step s (settle p out s)"
  by (simp add: promise_step_def settle_def split: pstate.splits)

lemma new_promise_step: "promise_step s (snd (new_promise s))"
  by (simp add: promise_step_def new_promise_def)

lemma then_children_step: "promise_step s (snd (then_children p s))"
  using attach_step [of "snd (new_promise s)"] new_promise_step [of s]
  by (auto simp: then_children_def split_def Let_def intro: promise_step_trans)

lemma then_entry_step: "promise_step s (snd (then_entry item s))"
  using attach_step [of "snd (new_promise s)"] new_promise_step [of s]
  by (auto simp: then_entry_def split_def Let_def intro: promise_step_trans)

lemma map_then_step: "promise_step s (snd (map_then items s))"
proof (induction items arbitrary: s)
  case Nil
  then show ?case by (simp add: promise_step_refl)
next
  case (Cons item items)
  show ?case
    using then_entry_step [of s item] Cons [of "snd (then_entry item s)"]
    by (auto simp: split_def Let_def intro: promise_step_trans)
qed

lemma all_attach_step: "promise_step s (all_attach a i ms s)"
proof (induction ms arbitrary: s i)
  case Nil
  then show ?case by (simp add: promise_step_refl)
next
  case (Cons m ms)
  show ?case
    using attach_step [of s m "ToAll a i"] Cons [of "attach m (ToAll a i) s" "Suc i"]
    by (auto intro: promise_step_trans)
qed

lemma promise_all_step: "promise_step s (snd (promise_all ms s))"
proof -
  define s1 where "s1 = snd (new_promise s)"
  define a where "a = fst (new_promise s)"
  define s2 where "s2 = s1\<lparr>slots := (slots s1)(a := replicate (length ms) None)\<rparr>"
  have 1: "promise_step s s2"
    unfolding s2_def s1_def by (rule promise_step_trans [OF new_promise_step slots_step])
  have 2: "promise_step s2 (all_attach a 0 ms s2)" by (rule all_attach_step)
  have 3: "promise_step (all_attach a 0 ms s2) (settle a (Fulfilled (VArr [])) (all_attach a 0 ms s2))"
    by (rule settle_step)
  show ?thesis
    using 1 2 3 by (auto simp: promise_all_def split_def Let_def s2_def s1_def a_def intro: promise_step_trans)
qed

lemma resolve_step: "promise_step s (snd (resolve v s))"
  using then_children_step by (cases v) (simp_all add: resolve_def promise_step_def split_def Let_def)

lemma resolve_records_step: "promise_step s (snd (resolve_records rs s))"
proof (cases rs)
  case Nil
  then show ?thesis by (simp add: resolve_records_def promise_step_refl)
next
  case (Cons r rs')
  show ?thesis
  proof (cases rs')
    case Nil
    then show ?thesis using \<open>rs = r # rs'\<close> resolve_step by (simp add: resolve_records_def)
  next
    case (Cons r' rs'')
    define s1 where "s1 = snd (map_then rs s)"
    define s2 where "s2 = snd (promise_all (fst (map_then rs s)) s1)"
    have "promise_step s s1" unfolding s1_def by (rule map_then_step)
    moreover have "promise_step s1 s2" unfolding s2_def by (rule promise_all_step)
    moreover have "promise_step s2 (snd (resolve (VPromise (fst (promise_all (fst (map_then rs s)) s1))) s2))"
      by (rule resolve_step)
    ultimately show ?thesis
      using Cons \<open>rs = r # rs'\<close>
      by (auto simp: resolve_records_def split_def Let_def s1_def s2_def intro: promise_step_trans)
  qed
qed

lemma run_job_step: "promise_step s (run_job j s)"
proof (cases "(j, s)" rule: run_job.cases)
  case (1 d v s')
  have "promise_step s (s\<lparr>trace := trace s @ [Triggered Completed v]\<rparr>)"
    by (rule trace_step) simp
  then show ?thesis using 1 by (auto intro: promise_step_trans settle_step)
next
  case (2 d e s')
  have "promise_step s (s\<lparr>trace := trace s @ [Triggered Failed e]\<rparr>)"
    by (rule trace_step) simp
  then show ?thesis using 2 by (auto intro: promise_step_trans settle_step)
next
  case (3 l d v s')
  then show ?thesis using settle_step by simp
next
  case (4 l d e s')
  then show ?thesis using settle_step by simp
next
  case (5 a i v s')
  have "promise_step s (s\<lparr>slots := (slots s)(a := (slots s a)[i := Some v])\<rparr>)"
    by (rule slots_step)
  then show ?thesis using 5 by (auto simp: Let_def intro: promise_step_trans settle_step)
next
  case (6 a i e s')
  then show ?thesis using settle_step by simp
qed

lemma drain_step: "promise_step s (drain s)"
proof (induction s rule: drain.induct)
  case (1 s)
  show ?case
  proof (cases "jobs s")
    case Nil
    then show ?thesis by (simp add: drain_Nil promise_step_refl)
  next
    case (Cons j js)
    have "promise_step s (s\<lparr>jobs := js\<rparr>)" by (rule jobs_step)
    moreover have "promise_step (s\<lparr>jobs := js\<rparr>) (run_job j (s\<lparr>jobs := js\<rparr>))" by (rule run_job_step)
    ultimately show ?thesis
      using "1.IH" [OF Cons] Cons by (auto simp: drain_Cons intro: promise_step_trans)
  qed
qed

lemma never_after_append:
  "never_after h (xs @ ys) \<longleftrightarrow>
     never_after h xs \<and> never_after h ys \<and> (Unsubscribed h \<in> set xs \<longrightarrow> Invoked h \<notin> set ys)"
  by (induction xs) auto

lemma never_after_split:
  "never_after h (xs @ Unsubscribed h # ys) \<Longrightarrow> Invoked h \<notin> set ys"
  by (simp add: never_after_append)

lemma never_after_triggers: "list_all is_trigger ext \<Longrightarrow> never_after h ext"
  by (induction ext) (auto simp: list_all_iff)

lemma triggers_no_sub: "list_all is_trigger ext \<Longrightarrow> Unsubscribed h \<notin> set ext \<and> Invoked h \<notin> set ext"
  by (auto simp: list_all_iff)

lemma promise_step_ok: "promise_step s t \<Longrightarrow> sub_ok h s \<Longrightarrow> sub_ok h t"
  unfolding promise_step_def sub_ok_def
  by (auto simp: never_after_append never_after_triggers dest: triggers_no_sub)

lemma unsubscribe_ok: "sub_ok h s \<Longrightarrow> sub_ok h (unsubscribe u s)"
  by (auto simp: sub_ok_def unsubscribe_def removeListener_def never_after_append)

lemma listen_ok: "sub_ok h s \<Longrightarrow> sub_ok h (snd (listen cb s))"
  by (auto simp: sub_ok_def listen_def addListener_def Let_def)

lemma listenOnce_ok: "sub_ok h s \<Longrightarrow> sub_ok h (snd (listenOnce f c s))"
  by (simp add: listenOnce_def Let_def listen_ok)

lemma keepsD: "keeps h f \<Longrightarrow> sub_ok h s \<Longrightarrow> f x s = Some s' \<Longrightarrow> sub_ok h s'"
  unfolding keeps_def by blast

lemma run_action_ok:
  assumes "keeps h again" and "sub_ok h s" and "run_action again a s = Some s'"
  shows "sub_ok h s'"
proof (cases a)
  case (Unsubscribe u)
  then show ?thesis using assms(2,3) unsubscribe_ok by auto
next
  case (Subscribe cb)
  then show ?thesis using assms(2,3) listen_ok by auto
next
  case (Retrigger args)
  then show ?thesis using assms keepsD [of h again s args s'] by simp
qed

lemma run_actions_ok:
  assumes "keeps h again" and "sub_ok h s" and "run_actions again acts s = Some s'"
  shows "sub_ok h s'"
  using assms(2,3)
proof (induction acts arbitrary: s)
  case Nil
  then show ?case by simp
next
  case (Cons a acts)
  from Cons.prems(2) obtain s1 where a: "run_action again a s = Some s1"
    and r: "run_actions again acts s1 = Some s'"
    by (auto split: option.splits)
  have "sub_ok h s1" using assms(1) Cons.prems(1) a by (rule run_action_ok)
  then show ?case using r by (rule Cons.IH)
qed

lemma trace_event_ok:
  "sub_ok h s \<Longrightarrow> e \<noteq> Unsubscribed h \<Longrightarrow> e \<noteq> Invoked h \<Longrightarrow> sub_ok h (s\<lparr>trace := trace s @ [e]\<rparr>)"
  by (auto simp: sub_ok_def never_after_append)

lemma call_user_ok:
  assumes "keeps h again" and "sub_ok h s" and "call_user again P f this args s = Some (v, s')"
  shows "sub_ok h s'"
proof -
  have 1: "sub_ok h (s\<lparr>trace := trace s @ [Called f this args]\<rparr>)"
    using assms(2) by (rule trace_event_ok) simp_all
  have 2: "run_actions again (fst (body P f this args s)) (s\<lparr>trace := trace s @ [Called f this args]\<rparr>) = Some s'"
    using assms(3) by (auto simp: call_user_def split_def Let_def split: option.splits)
  show ?thesis using assms(1) 1 2 by (rule run_actions_ok)
qed

lemma apply_fn_ok:
  assumes "keeps h again" and "sub_ok h s" and "apply_fn again P cb this args s = Some (v, s')"
  shows "sub_ok h s'"
proof (cases cb)
  case (User f)
  then have "call_user again P f this args s = Some (v, s')" using assms(3) by simp
  with assms(1,2) show ?thesis by (rule call_user_ok)
next
  case (OnceWrapper u f captured ctx)
  then have "call_user again P f ctx captured (unsubscribe u s) = Some (v, s')"
    using assms(3) by simp
  with assms(1) unsubscribe_ok [OF assms(2)] show ?thesis by (rule call_user_ok)
qed

lemma invoked_ok:
  "sub_ok h s \<Longrightarrow> \<not> aborted s u \<Longrightarrow> sub_ok h (s\<lparr>trace := trace s @ [Invoked u]\<rparr>)"
  by (auto simp: sub_ok_def never_after_append)

lemma dispatch_ok: "sub_ok h s \<Longrightarrow> sub_ok h (s\<lparr>dispatchPromises := x\<rparr>)"
  by (simp add: sub_ok_def)

lemma eventHandler_ok:
  assumes "keeps h again" and "sub_ok h s" and "eventHandler again P args u s = Some s'"
  shows "sub_ok h s'"
proof (cases "aborted s u")
  case True
  then show ?thesis using assms(2,3) by (simp add: eventHandler_def)
next
  case False
  then obtain v s1 where
    ap: "apply_fn again P (callback s u) VPublisher args (s\<lparr>trace := trace s @ [Invoked u]\<rparr>) = Some (v, s1)"
    using assms(3) by (auto simp: eventHandler_def split: option.splits)
  have s1: "sub_ok h s1"
    using assms(1) invoked_ok [OF assms(2) False] ap by (rule apply_fn_ok)
  have q: "sub_ok h (s1\<lparr>trace := trace s1 @ [CanHandlePromiseQueried]\<rparr>)"
    using s1 by (rule trace_event_ok) simp_all
  show ?thesis
  proof (cases "isPromise v")
    case False
    then have "s' = s1" using assms(3) \<open>\<not> aborted s u\<close> ap
      by (cases v) (simp_all add: eventHandler_def)
    then show ?thesis using s1 by simp
  next
    case True
    then obtain p where v: "v = VPromise p" by (cases v) simp_all
    show ?thesis
    proof (cases "canHandlePromise P")
      case True
      then have "s' = s1\<lparr>trace := trace s1 @ [CanHandlePromiseQueried]\<rparr>
          \<lparr>dispatchPromises := dispatchPromises s1 @ [\<lparr>promise = p, listener = callback s u\<rparr>]\<rparr>"
        using assms(3) \<open>\<not> aborted s u\<close> ap v by (simp add: eventHandler_def Let_def)
      then show ?thesis using dispatch_ok [OF q] by simp
    next
      case False
      then have "s' = s1\<lparr>trace := trace s1 @ [CanHandlePromiseQueried]\<rparr>
          \<lparr>trace := trace (s1\<lparr>trace := trace s1 @ [CanHandlePromiseQueried]\<rparr>)
                      @ [Warned (''Unhandled promise for '' @ eventType P)]\<rparr>"
        using assms(3) \<open>\<not> aborted s u\<close> ap v by (simp add: eventHandler_def Let_def)
      then show ?thesis using trace_event_ok [OF q, of "Warned (''Unhandled promise for '' @ eventType P)"] by simp
    qed
  qed
qed

lemma eventHandler_keeps: "keeps h again \<Longrightarrow> keeps h (eventHandler again P args)"
  unfolding keeps_def [of h "eventHandler again P args"] using eventHandler_ok by blast

lemma deliver_ok:
  assumes "keeps h handler" and "sub_ok h s" and "deliver handler hs s = Some s'"
  shows "sub_ok h s'"
  using assms(2,3)
proof (induction hs arbitrary: s)
  case Nil
  then show ?case by simp
next
  case (Cons u hs)
  from Cons.prems(2) obtain s1 where a: "handler u s = Some s1"
    and r: "deliver handler hs s1 = Some s'"
    by (auto split: option.splits)
  have "sub_ok h s1" using assms(1) Cons.prems(1) a by (rule keepsD)
  then show ?case using r by (rule Cons.IH)
qed

lemma handle_ok: "sub_ok h s \<Longrightarrow> sub_ok h (snd (handleDispatchPromises s))"
  unfolding handleDispatchPromises_def Let_def
  by (rule promise_step_ok [OF resolve_records_step]) (rule dispatch_ok)

lemma triggerSync_body_ok:
  assumes "keeps h again" and "sub_ok h s" and "triggerSync_body again P args s = Some s'"
  shows "sub_ok h s'"
proof (cases "truthy (shouldEmit P (emit_args P args))")
  case False
  then show ?thesis using assms(2,3) by (simp add: triggerSync_body_def)
next
  case True
  then obtain s1 where
    e: "deliver (eventHandler again P (emit_args P args)) (listeners s) (s\<lparr>dispatchPromises := []\<rparr>) = Some s1"
    and r: "s' = snd (handleDispatchPromises s1)"
    using assms(3) by (auto simp: triggerSync_body_def emit_def Let_def split: option.splits)
  have "sub_ok h s1"
    using eventHandler_keeps [OF assms(1)] dispatch_ok [OF assms(2)] e by (rule deliver_ok)
  then show ?thesis using r by (simp add: handle_ok)
qed

lemma triggerSync_keeps: "keeps h (triggerSync n P)"
proof (induction n)
  case 0
  then show ?case by (simp add: keeps_def)
next
  case (Suc n)
  show ?case
    unfolding keeps_def
  proof (intro allI impI)
    fix args s s'
    assume "sub_ok h s" and "triggerSync (Suc n) P args s = Some s'"
    then show "sub_ok h s'"
      using triggerSync_body_ok [OF Suc, of s P args s'] by simp
  qed
qed

lemma exec_ok:
  assumes "sub_ok h s" and "exec n P x s = Some s'"
  shows "sub_ok h s'"
proof (cases x)
  case (Listen cb)
  then show ?thesis using assms listen_ok by auto
next
  case (ListenOnce f c)
  then show ?thesis using assms listenOnce_ok by auto
next
  case (Unsub u)
  then show ?thesis using assms unsubscribe_ok by auto
next
  case (TriggerSync args)
  then show ?thesis using assms keepsD [OF triggerSync_keeps] by auto
next
  case (Resolve v)
  then show ?thesis using assms promise_step_ok [OF resolve_step] by auto
next
  case (Settle p out)
  then show ?thesis using assms promise_step_ok [OF settle_step] by auto
next
  case RunJobs
  then show ?thesis using assms promise_step_ok [OF drain_step] by auto
qed

lemma execs_ok: "sub_ok h s \<Longrightarrow> execs n P xs s = Some s' \<Longrightarrow> sub_ok h s'"
proof (induction xs arbitrary: s)
  case Nil
  then show ?case by simp
next
  case (Cons x xs)
  from Cons.prems(2) obtain s1 where a: "exec n P x s = Some s1"
    and r: "execs n P xs s1 = Some s'"
    by (auto split: option.splits)
  have "sub_ok h s1" using Cons.prems(1) a by (rule exec_ok)
  then show ?case using r by (rule Cons.IH)
qed

lemma attach_dp: "attach p r (s\<lparr>dispatchPromises := x\<rparr>) = (attach p r s)\<lparr>dispatchPromises := x\<rparr>"
  by (simp add: attach_def split: pstate.splits)

lemma settle_dp: "settle p out (s\<lparr>dispatchPromises := x\<rparr>) = (settle p out s)\<lparr>dispatchPromises := x\<rparr>"
  by (simp add: settle_def split: pstate.splits)

lemma new_promise_dp:
  "new_promise (s\<lparr>dispatchPromises := x\<rparr>)
     = (fst (new_promise s), (snd (new_promise s))\<lparr>dispatchPromises := x\<rparr>)"
  by (simp add: new_promise_def)

lemma then_children_dp:
  "then_children p (s\<lparr>dispatchPromises := x\<rparr>)
     = (fst (then_children p s), (snd (then_children p s))\<lparr>dispatchPromises := x\<rparr>)"
  unfolding then_children_def new_promise_dp by (simp add: split_def Let_def attach_dp)

lemma then_entry_dp:
  "then_entry item (s\<lparr>dispatchPromises := x\<rparr>)
     = (fst (then_entry item s), (snd (then_entry item s))\<lparr>dispatchPromises := x\<rparr>)"
  unfolding then_entry_def new_promise_dp by (simp add: split_def Let_def attach_dp)

lemma map_then_dp:
  "map_then items (s\<lparr>dispatchPromises := x\<rparr>)
     = (fst (map_then items s), (snd (map_then items s))\<lparr>dispatchPromises := x\<rparr>)"
proof (induction items arbitrary: s)
  case Nil
  then show ?case by simp
next
  case (Cons item items)
  show ?case
    unfolding map_then.simps then_entry_dp
    by (simp add: Cons [of "snd (then_entry item s)"] split_def Let_def)
qed

lemma all_attach_dp:
  "all_attach a i ms (s\<lparr>dispatchPromises := x\<rparr>) = (all_attach a i ms s)\<lparr>dispatchPromises := x\<rparr>"
  by (induction ms arbitrary: s i) (simp_all add: attach_dp)

lemma slots_dp:
  "t\<lparr>dispatchPromises := x\<rparr>\<lparr>slots := f\<rparr> = t\<lparr>slots := f\<rparr>\<lparr>dispatchPromises := x\<rparr>"
  by simp

lemma promise_all_dp:
  "promise_all ms (s\<lparr>dispatchPromises := x\<rparr>)
     = (fst (promise_all ms s), (snd (promise_all ms s))\<lparr>dispatchPromises := x\<rparr>)"
proof -
  define t where "t = snd (new_promise s)"
  define a where "a = fst (new_promise s)"
  define F where "F = (slots t)(a := replicate (length ms) None)"
  define s2 where "s2 = t\<lparr>slots := F\<rparr>"
  have e: "t\<lparr>dispatchPromises := x\<rparr>\<lparr>slots := F\<rparr> = s2\<lparr>dispatchPromises := x\<rparr>"
    by (simp add: s2_def)
  have lhs: "promise_all ms (s\<lparr>dispatchPromises := x\<rparr>) =
      (a, if ms = [] then settle a (Fulfilled (VArr [])) (all_attach a 0 ms (t\<lparr>dispatchPromises := x\<rparr>\<lparr>slots := F\<rparr>))
          else all_attach a 0 ms (t\<lparr>dispatchPromises := x\<rparr>\<lparr>slots := F\<rparr>))"
    unfolding promise_all_def new_promise_dp
    by (simp add: split_def Let_def t_def a_def F_def)
  have rhs: "promise_all ms s =
      (a, if ms = [] then settle a (Fulfilled (VArr [])) (all_attach a 0 ms s2) else all_attach a 0 ms s2)"
    unfolding promise_all_def
    by (simp add: split_def Let_def t_def a_def F_def s2_def)
  show ?thesis
    unfolding lhs rhs e all_attach_dp by (simp add: settle_dp)
qed

lemma resolve_dp:
  "resolve v (s\<lparr>dispatchPromises := x\<rparr>)
     = (fst (resolve v s), (snd (resolve v s))\<lparr>dispatchPromises := x\<rparr>)"
  by (cases v) (simp_all add: resolve_def then_children_dp split_def Let_def)

lemma resolve_records_dp:
  "resolve_records rs (s\<lparr>dispatchPromises := x\<rparr>)
     = (fst (resolve_records rs s), (snd (resolve_records rs s))\<lparr>dispatchPromises := x\<rparr>)"
proof (cases rs)
  case Nil
  then show ?thesis by (simp add: resolve_records_def)
next
  case (Cons r rs')
  show ?thesis
  proof (cases rs')
    case Nil
    then show ?thesis using Cons by (simp add: resolve_records_def resolve_dp)
  next
    case (Cons r' rs'')
    then show ?thesis
      using \<open>rs = r # rs'\<close>
      unfolding resolve_records_def map_then_dp
      by (simp add: promise_all_dp resolve_dp split_def Let_def)
  qed
qed

lemma step_dispatch: "promise_step s t \<Longrightarrow> dispatchPromises t = dispatchPromises s"
  by (simp add: promise_step_def)

lemma handle_dispatch: "dispatchPromises (snd (handleDispatchPromises s)) = []"
  using step_dispatch [OF resolve_records_step, of "dispatchPromises s" "s\<lparr>dispatchPromises := []\<rparr>"]
  by (simp add: handleDispatchPromises_def)

lemma triggerSync_dispatch:
  assumes "truthy (shouldEmit P (emit_args P args))" and "triggerSync (Suc n) P args s = Some s'"
  shows "dispatchPromises s' = []"
  using assms by (auto simp: triggerSync_body_def Let_def handle_dispatch split: option.splits)

lemma triggerSync_dispatch_either:
  assumes "triggerSync n P args s = Some s'" and "dispatchPromises s = []"
  shows "dispatchPromises s' = []"
proof (cases n)
  case 0
  then show ?thesis using assms by simp
next
  case (Suc m)
  then show ?thesis
    using assms by (auto simp: triggerSync_body_def Let_def handle_dispatch split: option.splits if_splits)
qed

lemma exec_dispatch:
  assumes "exec n P x s = Some s'" and "dispatchPromises s = []"
  shows "dispatchPromises s' = []"
proof (cases x)
  case (Listen cb)
  then show ?thesis using assms by (auto simp: listen_def addListener_def Let_def)
next
  case (ListenOnce f c)
  then show ?thesis using assms by (auto simp: listenOnce_def listen_def addListener_def Let_def)
next
  case (Unsub u)
  then show ?thesis using assms by (auto simp: unsubscribe_def removeListener_def)
next
  case (TriggerSync args)
  then show ?thesis using assms triggerSync_dispatch_either by auto
next
  case (Resolve v)
  then show ?thesis using assms step_dispatch [OF resolve_step] by auto
next
  case (Settle p out)
  then show ?thesis using assms step_dispatch [OF settle_step] by auto
next
  case RunJobs
  then show ?thesis using assms step_dispatch [OF drain_step] by auto
qed

lemma execs_dispatch:
  "execs n P xs s = Some s' \<Longrightarrow> dispatchPromises s = [] \<Longrightarrow> dispatchPromises s' = []"
proof (induction xs arbitrary: s)
  case Nil
  then show ?case by simp
next
  case (Cons x xs)
  from Cons.prems(1) obtain s1 where a: "exec n P x s = Some s1"
    and r: "execs n P xs s1 = Some s'"
    by (auto split: option.splits)
  have "dispatchPromises s1 = []" using a Cons.prems(2) by (rule exec_dispatch)
  with r show ?case by (rule Cons.IH)
qed

text \<open>The cycle with two or more records: its invariant, from the state \<^verbatim>\<open>_handleDispatchPromises\<close>
  leaves, through every settlement and every job.\<close>

lemma heap_only_refl: "heap_only s s"
  by (simp add: heap_only_def)

lemma heap_only_trans: "heap_only s t \<Longrightarrow> heap_only t u \<Longrightarrow> heap_only s u"
proof -
  assume a: "heap_only s t" and b: "heap_only t u"
  have "u = t\<lparr>heap := heap u\<rparr>" using b by (simp add: heap_only_def)
  also have "t = s\<lparr>heap := heap t\<rparr>" using a by (simp add: heap_only_def)
  finally show ?thesis by (simp add: heap_only_def)
qed

lemma attach_pending:
  assumes "p < length (heap s)" and "heap s ! p = Pending old"
  shows "attach p r s = s\<lparr>heap := (heap s)[p := Pending (old @ [r])]\<rparr>"
  using assms by (simp add: attach_def)

lemma all_attach_fresh:
  assumes "\<forall>m\<in>set ms. m < length (heap s) \<and> heap s ! m = Pending []"
    and "distinct ms"
  shows "heap_only s (all_attach a i0 ms s)
    \<and> length (heap (all_attach a i0 ms s)) = length (heap s)
    \<and> (\<forall>k<length ms. heap (all_attach a i0 ms s) ! (ms ! k) = Pending [ToAll a (i0 + k)])
    \<and> (\<forall>q. q \<notin> set ms \<longrightarrow> heap (all_attach a i0 ms s) ! q = heap s ! q)"
  using assms
proof (induction ms arbitrary: s i0)
  case Nil
  then show ?case by (simp add: heap_only_refl)
next
  case (Cons m ms)
  define s1 where "s1 = s\<lparr>heap := (heap s)[m := Pending [ToAll a i0]]\<rparr>"
  have m: "m < length (heap s)" "heap s ! m = Pending []" "m \<notin> set ms"
    using Cons.prems by simp_all
  have at: "attach m (ToAll a i0) s = s1"
    using attach_pending [of m s "[]" "ToAll a i0"] m by (simp add: s1_def)
  have pre1: "\<forall>x\<in>set ms. x < length (heap s1) \<and> heap s1 ! x = Pending []"
  proof
    fix x assume x: "x \<in> set ms"
    then have "x \<noteq> m" and "x < length (heap s)" and "heap s ! x = Pending []"
      using Cons.prems m by auto
    then show "x < length (heap s1) \<and> heap s1 ! x = Pending []"
      by (simp add: s1_def)
  qed
  have dist1: "distinct ms" using Cons.prems by simp
  note IH = Cons.IH [OF pre1 dist1, of "Suc i0"]
  define s' where "s' = all_attach a (Suc i0) ms s1"
  have aa: "all_attach a i0 (m # ms) s = s'" by (simp add: at s'_def)
  have 1: "heap_only s s'"
  proof -
    have "heap_only s s1" by (simp add: heap_only_def s1_def)
    moreover have "heap_only s1 s'" using IH by (simp add: s'_def)
    ultimately show ?thesis by (rule heap_only_trans)
  qed
  have 2: "length (heap s') = length (heap s)" using IH by (simp add: s'_def s1_def)
  have 3: "heap s' ! ((m # ms) ! k) = Pending [ToAll a (i0 + k)]" if "k < length (m # ms)" for k
  proof (cases k)
    case 0
    have "heap s' ! m = heap s1 ! m" using IH m(3) by (simp add: s'_def)
    then show ?thesis using 0 m(1) by (simp add: s1_def)
  next
    case (Suc j)
    then have "j < length ms" using that by simp
    then show ?thesis using IH Suc by (simp add: s'_def)
  qed
  have 4: "heap s' ! q = heap s ! q" if "q \<notin> set (m # ms)" for q
  proof -
    have "heap s' ! q = heap s1 ! q" using IH that by (simp add: s'_def)
    then show ?thesis using that by (simp add: s1_def)
  qed
  show ?case unfolding aa using 1 2 3 4 by blast
qed

lemma heap_only_fields:
  assumes "heap_only s t"
  shows "jobs t = jobs s" and "trace t = trace s" and "slots t = slots s"
proof -
  have e: "t = s\<lparr>heap := heap t\<rparr>" using assms by (simp add: heap_only_def)
  show "jobs t = jobs s" by (subst e) simp
  show "trace t = trace s" by (subst e) simp
  show "slots t = slots s" by (subst e) simp
qed

lemma settle_pending:
  assumes "p < length (heap s)" and "heap s ! p = Pending rs"
  shows "settle p out s = s\<lparr>heap := (heap s)[p := Settled out], jobs := jobs s @ map (\<lambda>r. Job r out) rs\<rparr>"
  using assms by (simp add: settle_def)

lemma entry_reactions_none: "\<forall>r\<in>set rs. promise r \<noteq> q \<Longrightarrow> entry_reactions q m rs = []"
  by (induction rs arbitrary: m) simp_all

lemma entry_jobs_cong:
  "\<forall>r\<in>set rs. \<forall>out. (h1 ! promise r = Settled out) = (h2 ! promise r = Settled out)
     \<Longrightarrow> entry_jobs h1 m rs = entry_jobs h2 m rs"
proof (induction rs arbitrary: m)
  case Nil
  then show ?case by simp
next
  case (Cons r rs)
  have eqv: "(h1 ! promise r = Settled out) = (h2 ! promise r = Settled out)" for out
    using Cons.prems by simp
  have "(case h1 ! promise r of Pending qs \<Rightarrow> [] | Settled out \<Rightarrow> [Job (ToEntry (listener r) m) out])
      = (case h2 ! promise r of Pending qs \<Rightarrow> [] | Settled out \<Rightarrow> [Job (ToEntry (listener r) m) out])"
  proof (cases "h1 ! promise r")
    case (Pending qs)
    then have "\<And>out. h2 ! promise r \<noteq> Settled out" using eqv by auto
    then obtain qs' where "h2 ! promise r = Pending qs'" by (cases "h2 ! promise r") auto
    then show ?thesis using Pending by simp
  next
    case (Settled out)
    then have "h2 ! promise r = Settled out" using eqv by simp
    then show ?thesis using Settled by simp
  qed
  moreover have "entry_jobs h1 (Suc m) rs = entry_jobs h2 (Suc m) rs"
    using Cons.prems by (intro Cons.IH) simp
  ultimately show ?case by simp
qed

lemma promise_only_refl: "promise_only s s"
  by (simp add: promise_only_def)

lemma promise_only_trans:
  assumes "promise_only s t" and "promise_only t u"
  shows "promise_only s u"
proof -
  have "u = t\<lparr>heap := heap u, jobs := jobs u\<rparr>" using assms(2) by (simp add: promise_only_def)
  also have "t = s\<lparr>heap := heap t, jobs := jobs t\<rparr>" using assms(1) by (simp add: promise_only_def)
  finally show ?thesis by (simp add: promise_only_def)
qed

lemma promise_only_fields:
  assumes "promise_only s t"
  shows "trace t = trace s" and "slots t = slots s"
proof -
  have e: "t = s\<lparr>heap := heap t, jobs := jobs t\<rparr>" using assms by (simp add: promise_only_def)
  show "trace t = trace s" by (subst e) simp
  show "slots t = slots s" by (subst e) simp
qed

lemma map_then_general:
  assumes "\<forall>r\<in>set rs. promise r < length (heap s)"
  shows "fst (map_then rs s) = [length (heap s) ..< length (heap s) + length rs]
    \<and> promise_only s (snd (map_then rs s))
    \<and> length (heap (snd (map_then rs s))) = length (heap s) + length rs
    \<and> (\<forall>q<length (heap s). heap (snd (map_then rs s)) ! q
          = after_reactions (heap s ! q) (entry_reactions q (length (heap s)) rs))
    \<and> (\<forall>k<length rs. heap (snd (map_then rs s)) ! (length (heap s) + k) = Pending [])
    \<and> jobs (snd (map_then rs s)) = jobs s @ entry_jobs (heap s) (length (heap s)) rs"
  using assms
proof (induction rs arbitrary: s)
  case Nil
  then show ?case by (simp add: promise_only_refl after_reactions_def split: pstate.splits)
next
  case (Cons item items)
  define M where "M = length (heap s)"
  define p where "p = promise item"
  define l where "l = listener item"
  define s1 where "s1 = snd (then_entry item s)"
  have pM: "p < M" using Cons.prems by (simp add: p_def M_def)
  have small: "promise r < M" if "r \<in> set items" for r
    using Cons.prems that by (simp add: M_def)
  have te: "then_entry item s = (M, s1)"
    by (simp add: then_entry_def new_promise_def s1_def M_def)
  have h1: "heap s1 = (heap s @ [Pending []])[p := after_reactions (heap s ! p) [ToEntry l M]]"
  proof (cases "heap s ! p")
    case (Pending qs)
    then show ?thesis
      using pM
      by (simp add: s1_def then_entry_def new_promise_def attach_def nth_append after_reactions_def
          p_def l_def M_def)
  next
    case (Settled out)
    have "(heap s @ [Pending []]) ! p = Settled out"
      using pM Settled by (simp add: nth_append M_def)
    then have "(heap s @ [Pending []])[p := Settled out] = heap s @ [Pending []]"
      by (metis list_update_id)
    then show ?thesis
      using pM Settled
      by (simp add: s1_def then_entry_def new_promise_def attach_def nth_append after_reactions_def
          p_def [symmetric] M_def)
  qed
  have j1: "jobs s1 = jobs s @ (case heap s ! p of Pending qs \<Rightarrow> [] | Settled out \<Rightarrow> [Job (ToEntry l M) out])"
    using pM
    by (cases "heap s ! p")
       (simp_all add: s1_def then_entry_def new_promise_def attach_def nth_append p_def l_def M_def)
  have o1: "promise_only s s1"
    by (simp add: promise_only_def s1_def then_entry_def new_promise_def attach_def split: pstate.splits)
  have len1: "length (heap s1) = Suc M" by (simp add: h1 M_def)
  have pre1: "\<forall>r\<in>set items. promise r < length (heap s1)"
    using small by (auto simp: len1 less_Suc_eq)
  note IH = Cons.IH [OF pre1, unfolded len1]
  define s' where "s' = snd (map_then items s1)"
  have mt: "map_then (item # items) s = (M # fst (map_then items s1), s')"
    by (simp add: te split_def Let_def s'_def)
  have f: "fst (map_then items s1) = [Suc M ..< Suc M + length items]"
    using IH by blast
  have eq: "M + length (item # items) = Suc M + length items" by simp
  have "[M ..< M + length (item # items)] = M # [Suc M ..< M + length (item # items)]"
    by (rule upt_conv_Cons) simp
  then have a1: "fst (map_then (item # items) s) = [M ..< M + length (item # items)]"
    unfolding mt fst_conv f by (simp only: eq)
  have a2: "promise_only s s'"
  proof -
    have "promise_only s1 s'" using IH by (simp add: s'_def)
    with o1 show ?thesis by (rule promise_only_trans)
  qed
  have a3: "length (heap s') = M + length (item # items)"
    using IH by (simp add: s'_def)
  have cell: "heap s' ! q = after_reactions (heap s1 ! q) (entry_reactions q (Suc M) items)" if "q < Suc M" for q
    using IH that by (simp add: s'_def)
  have a4: "heap s' ! q = after_reactions (heap s ! q) (entry_reactions q M (item # items))" if "q < M" for q
  proof (cases "q = p")
    case True
    have "heap s1 ! p = after_reactions (heap s ! p) [ToEntry l M]"
      using pM by (simp add: h1 M_def)
    then show ?thesis
      using cell [of p] pM True
      by (cases "heap s ! p") (simp_all add: after_reactions_def p_def l_def)
  next
    case False
    have "heap s1 ! q = heap s ! q"
      using that False by (simp add: h1 nth_append M_def)
    then show ?thesis
      using cell [of q] that False by (simp add: p_def)
  qed
  have a5: "heap s' ! (M + k) = Pending []" if "k < length (item # items)" for k
  proof (cases k)
    case 0
    have "entry_reactions M (Suc M) items = []"
      using small by (intro entry_reactions_none) auto
    moreover have "heap s1 ! M = Pending []"
      using pM by (simp add: h1 nth_append M_def)
    ultimately show ?thesis using cell [of M] 0 by (simp add: after_reactions_def)
  next
    case (Suc j)
    then have "j < length items" using that by simp
    then show ?thesis using IH Suc by (simp add: s'_def)
  qed
  have same: "entry_jobs (heap s1) (Suc M) items = entry_jobs (heap s) (Suc M) items"
  proof (rule entry_jobs_cong, intro ballI allI)
    fix r out assume r: "r \<in> set items"
    have rM: "promise r < M" using small r .
    show "(heap s1 ! promise r = Settled out) = (heap s ! promise r = Settled out)"
    proof (cases "promise r = p")
      case True
      then show ?thesis
        using pM by (cases "heap s ! p") (simp_all add: h1 M_def after_reactions_def)
    next
      case False
      then show ?thesis using rM by (simp add: h1 nth_append M_def)
    qed
  qed
  have a6: "jobs s' = jobs s @ entry_jobs (heap s) M (item # items)"
  proof -
    have "jobs s' = jobs s1 @ entry_jobs (heap s1) (Suc M) items" using IH by (simp add: s'_def)
    then show ?thesis unfolding j1 same l_def p_def by simp
  qed
  show ?case
    unfolding M_def [symmetric] a1 unfolding mt snd_conv
    using a2 a3 a4 a5 a6 by blast
qed

lemma drain_quiet: "jobs (drain s) = []"
proof (induction s rule: drain.induct)
  case (1 s)
  show ?case
  proof (cases "jobs s")
    case Nil
    then show ?thesis by (simp add: drain_Nil)
  next
    case (Cons j js)
    then show ?thesis using 1 by (simp add: drain_Cons)
  qed
qed

lemma entry_reactions_set:
  "q' \<in> set (entry_reactions q m rs)
     \<longleftrightarrow> (\<exists>k<length rs. q' = ToEntry (listener (rs ! k)) (m + k) \<and> promise (rs ! k) = q)"
proof (induction rs arbitrary: m)
  case Nil
  then show ?case by simp
next
  case (Cons r rs)
  have "(\<exists>k<length (r # rs). q' = ToEntry (listener ((r # rs) ! k)) (m + k) \<and> promise ((r # rs) ! k) = q)
      \<longleftrightarrow> (q' = ToEntry (listener r) m \<and> promise r = q)
          \<or> (\<exists>k<length rs. q' = ToEntry (listener (rs ! k)) (Suc m + k) \<and> promise (rs ! k) = q)"
    by (auto simp: less_Suc_eq_0_disj)
  then show ?case using Cons.IH [of "Suc m"] by auto
qed

lemma entry_jobs_set:
  "j \<in> set (entry_jobs h m rs)
     \<longleftrightarrow> (\<exists>k<length rs. \<exists>out. j = Job (ToEntry (listener (rs ! k)) (m + k)) out
            \<and> h ! promise (rs ! k) = Settled out)"
proof (induction rs arbitrary: m)
  case Nil
  then show ?case by simp
next
  case (Cons r rs)
  have "(\<exists>k<length (r # rs). \<exists>out. j = Job (ToEntry (listener ((r # rs) ! k)) (m + k)) out
            \<and> h ! promise ((r # rs) ! k) = Settled out)
      \<longleftrightarrow> (\<exists>out. j = Job (ToEntry (listener r) m) out \<and> h ! promise r = Settled out)
          \<or> (\<exists>k<length rs. \<exists>out. j = Job (ToEntry (listener (rs ! k)) (Suc m + k)) out
            \<and> h ! promise (rs ! k) = Settled out)"
    by (auto simp: less_Suc_eq_0_disj)
  then show ?case using Cons.IH [of "Suc m"] by (auto split: pstate.splits)
qed

lemma mapped_rejected: "mapped l out = Rejected e \<longleftrightarrow> out = Rejected e"
  by (cases out) (simp_all add: mapped_def)

lemma mapped_fulfilled: "mapped l (Fulfilled v) = Fulfilled (VEntry l v)"
  by (simp add: mapped_def)

lemma is_cjob_target: "is_cjob d j \<Longrightarrow> job_target j = d"
  by (cases j) auto

lemma our_job_grows: "our_job rs N s j \<Longrightarrow> grows s t \<Longrightarrow> our_job rs N t j"
  unfolding our_job_def grows_def by blast

lemma our_job_events: "our_job rs N s j \<Longrightarrow> is_cjob (N + length rs + 1) j \<or> job_events j = []"
  by (auto simp: our_job_def)

lemma cycle_inv_cong:
  assumes "cycle_inv rs N L s" and "heap t = heap s" and "jobs t = jobs s"
    and "slots t (N + length rs) = slots s (N + length rs)"
  shows "cycle_inv rs N L t"
proof -
  have 1: "our_job rs N t = our_job rs N s" by (intro ext) (simp add: our_job_def assms(2))
  have 2: "rec_ok rs N t = rec_ok rs N s" by (intro ext) (simp add: rec_ok_def assms(2,3))
  have 3: "map_ok rs N t i = map_ok rs N s i" for i unfolding map_ok_def assms(2,3,4) ..
  have 4: "agg_ok rs N L t = agg_ok rs N L s" unfolding agg_ok_def assms(2,3,4) ..
  show ?thesis using assms(1) unfolding cycle_inv_def 1 2 3 4 assms(2,3,4) .
qed

lemma settle_inv:
  assumes inv: "cycle_inv rs N L s" and pN: "p < N"
  shows "cycle_inv rs N L (settle p out s)"
proof (cases "heap s ! p")
  case (Settled out0)
  then have "settle p out s = s" by (simp add: settle_def)
  then show ?thesis using inv by simp
next
  case (Pending qs)
  define n where "n = length rs"
  define d where "d = N + n + 1"
  define t where "t = s\<lparr>heap := (heap s)[p := Settled out], jobs := jobs s @ map (\<lambda>r. Job r out) qs\<rparr>"
  have len: "length (heap s) = N + n + 2" and sl: "length (slots s (N + n)) = n"
    and small: "\<forall>r\<in>set rs. promise r < N"
    and jobs: "\<forall>j\<in>set (jobs s). job_target j < N \<or> our_job rs N s j"
    and ran: "\<forall>j\<in>set L. job_target j < N \<or> is_cjob d j \<or> job_events j = []"
    and cls: "\<And>q qs. q < N \<Longrightarrow> heap s ! q = Pending qs \<Longrightarrow> \<forall>r\<in>set qs. target r < N \<or> our_reaction rs N q r"
    and rec: "\<And>i. i < n \<Longrightarrow> rec_ok rs N s i" and mp: "\<And>i. i < n \<Longrightarrow> map_ok rs N s i"
    and agg: "agg_ok rs N L s"
    using inv by (simp_all add: cycle_inv_def n_def d_def)
  have pend: "heap s ! p = Pending qs" using Pending .
  have st: "settle p out s = t"
    using settle_pending [of p s qs out] pN pend len by (simp add: t_def)
  have hp: "heap t ! p = Settled out" using pN len by (simp add: t_def)
  have other: "heap t ! q = heap s ! q" if "q \<noteq> p" for q using that by (simp add: t_def)
  have big: "heap t ! (N + k) = heap s ! (N + k)" for k using pN by (intro other) simp
  have gr: "grows s t"
    unfolding grows_def using pend other by (metis pstate.distinct(1))
  have qs_cls: "\<forall>r\<in>set qs. target r < N \<or> our_reaction rs N p r"
    using cls [OF pN pend] .
  have c1: "length (heap t) = N + n + 2" "length (slots t (N + n)) = n"
    using len sl by (simp_all add: t_def)
  have c2: "job_target j < N \<or> our_job rs N t j" if jt: "j \<in> set (jobs t)" for j
  proof (cases "j \<in> set (jobs s)")
    case True
    then show ?thesis using jobs gr our_job_grows by blast
  next
    case False
    then obtain r where r: "r \<in> set qs" "j = Job r out" using jt by (auto simp: t_def)
    from qs_cls r(1) have "target r < N \<or> our_reaction rs N p r" by blast
    then show ?thesis
    proof
      assume "target r < N"
      then show ?thesis using r by simp
    next
      assume "our_reaction rs N p r"
      then obtain k where k: "k < n" "r = ToEntry (listener (rs ! k)) (N + k)" "promise (rs ! k) = p"
        by (auto simp: our_reaction_def n_def)
      then have "our_job rs N t j" using r hp by (auto simp: our_job_def n_def)
      then show ?thesis ..
    qed
  qed
  have c2b: "\<forall>r\<in>set qs'. target r < N \<or> our_reaction rs N q r"
    if "q < N" "heap t ! q = Pending qs'" for q qs'
  proof -
    have "q \<noteq> p" using that(2) hp by auto
    then have "heap s ! q = Pending qs'" using that(2) other by simp
    then show ?thesis using cls that(1) by blast
  qed
  have c3: "rec_ok rs N t i" if i: "i < n" for i
  proof (cases "promise (rs ! i) = p")
    case True
    have "ToEntry (listener (rs ! i)) (N + i) \<in> set qs"
      using rec [OF i] pend True by (simp add: rec_ok_def)
    then have "Job (ToEntry (listener (rs ! i)) (N + i)) out \<in> set (jobs t)"
      by (simp add: t_def)
    then show ?thesis using True hp by (simp add: rec_ok_def)
  next
    case False
    have "heap t ! promise (rs ! i) = heap s ! promise (rs ! i)" using False by (rule other)
    moreover have "set (jobs s) \<subseteq> set (jobs t)" by (simp add: t_def)
    ultimately show ?thesis using rec [OF i] big unfolding rec_ok_def by auto
  qed
  have c4: "map_ok rs N t i" if i: "i < n" for i
  proof -
    have a: "heap t ! (N + i) = heap s ! (N + i)" "heap t ! (N + length rs) = heap s ! (N + length rs)"
      using big by simp_all
    have b: "slots t = slots s" by (simp add: t_def)
    have c: "set (jobs s) \<subseteq> set (jobs t)" by (simp add: t_def)
    have e: "heap s ! promise (rs ! i) = Settled o' \<Longrightarrow> heap t ! promise (rs ! i) = Settled o'" for o'
      using gr by (simp add: grows_def)
    show ?thesis
      using mp [OF i] c e unfolding map_ok_def a b by blast
  qed
  have c5: "agg_ok rs N L t"
  proof -
    have a: "heap t ! (N + k) = heap s ! (N + k)" for k using big by simp
    have a': "heap t ! (N + length rs + 1) = heap s ! (N + length rs + 1)"
      using big [of "length rs + 1"] by (simp add: add.assoc)
    have b: "slots t = slots s" by (simp add: t_def)
    have "\<not> is_cjob (N + length rs + 1) (Job r out)" if "r \<in> set qs" for r
      using qs_cls that by (auto simp: our_reaction_def)
    then have "filter (is_cjob (N + length rs + 1)) (map (\<lambda>r. Job r out) qs) = []"
      by (auto simp: filter_empty_conv)
    then have c: "filter (is_cjob (N + length rs + 1)) (jobs t) = filter (is_cjob (N + length rs + 1)) (jobs s)"
      by (simp add: t_def)
    show ?thesis using agg unfolding agg_ok_def a a' b c .
  qed
  show ?thesis
    unfolding st cycle_inv_def n_def [symmetric]
    using c1 c2 c2b c3 c4 c5 small ran unfolding d_def by blast
qed

lemma pop_foreign:
  assumes inv: "cycle_inv rs N L s" and hd: "jobs s = j # js" and f: "job_target j < N"
  shows "cycle_inv rs N (L @ [j]) (s\<lparr>jobs := js\<rparr>)"
proof -
  define n where "n = length rs"
  define d where "d = N + n + 1"
  define t where "t = s\<lparr>jobs := js\<rparr>"
  have len: "length (heap s) = N + n + 2" and sl: "length (slots s (N + n)) = n"
    and small: "\<forall>r\<in>set rs. promise r < N"
    and jobs: "\<forall>j\<in>set (jobs s). job_target j < N \<or> our_job rs N s j"
    and ran: "\<forall>j\<in>set L. job_target j < N \<or> is_cjob d j \<or> job_events j = []"
    and cls: "\<forall>q<N. \<forall>qs. heap s ! q = Pending qs \<longrightarrow> (\<forall>r\<in>set qs. target r < N \<or> our_reaction rs N q r)"
    and rec: "\<And>i. i < n \<Longrightarrow> rec_ok rs N s i" and mp: "\<And>i. i < n \<Longrightarrow> map_ok rs N s i"
    and agg: "agg_ok rs N L s"
    using inv by (simp_all add: cycle_inv_def n_def d_def)
  have ht: "heap t = heap s" "slots t = slots s" "jobs t = js" by (simp_all add: t_def)
  have keep: "x \<in> set js" if "x \<in> set (jobs s)" "N \<le> job_target x" for x
    using that hd f by auto
  have ncj: "\<not> is_cjob (N + length rs + 1) j" using f is_cjob_target [of "N + length rs + 1" j] by auto
  have oj: "our_job rs N t = our_job rs N s" by (intro ext) (simp add: our_job_def ht)
  have c2: "\<forall>x\<in>set (jobs t). job_target x < N \<or> our_job rs N t x"
    using jobs hd unfolding oj ht by simp
  have c2a: "\<forall>x\<in>set (L @ [j]). job_target x < N \<or> is_cjob d x \<or> job_events x = []"
    using ran f by simp
  have c3: "rec_ok rs N t i" if i: "i < n" for i
  proof -
    have "Job (ToEntry (listener (rs ! i)) (N + i)) out \<in> set js"
      if "Job (ToEntry (listener (rs ! i)) (N + i)) out \<in> set (jobs s)" for out
      using keep [OF that] by simp
    then show ?thesis using rec [OF i] unfolding rec_ok_def ht by blast
  qed
  have c4: "map_ok rs N t i" if i: "i < n" for i
  proof -
    have "Job (ToAll (N + length rs) i) out \<in> set js"
      if "Job (ToAll (N + length rs) i) out \<in> set (jobs s)" for out
      using keep [OF that] by simp
    then show ?thesis using mp [OF i] unfolding map_ok_def ht by blast
  qed
  have c5: "agg_ok rs N (L @ [j]) t"
  proof -
    have a: "filter (is_cjob (N + length rs + 1)) (jobs s) = filter (is_cjob (N + length rs + 1)) js"
      using hd ncj by simp
    have b: "filter (is_cjob (N + length rs + 1)) (L @ [j]) = filter (is_cjob (N + length rs + 1)) L"
      using ncj by simp
    show ?thesis using agg unfolding agg_ok_def ht a b .
  qed
  show ?thesis
    unfolding t_def [symmetric] cycle_inv_def n_def [symmetric] d_def [symmetric]
    using len sl small c2 c2a cls c3 c4 c5 unfolding ht d_def n_def by blast
qed

lemma foreign_run:
  "\<exists>u. heap u = heap s \<and> jobs u = jobs s \<and> (\<forall>b. b \<noteq> job_target j \<longrightarrow> slots u b = slots s b)
       \<and> (run_job j s = u \<or> (\<exists>out'. run_job j s = settle (job_target j) out' u))"
proof (cases j)
  case (Job r out)
  show ?thesis
  proof (cases r)
    case (ToChildren d)
    have "run_job j s = settle d (Fulfilled VUndef) (s\<lparr>trace := trace s @ job_events j\<rparr>)"
      unfolding Job ToChildren by (cases out) simp_all
    then show ?thesis
      by (intro exI [of _ "s\<lparr>trace := trace s @ job_events j\<rparr>"]) (auto simp: Job ToChildren)
  next
    case (ToEntry l d)
    have "run_job j s = settle d (mapped l out) s"
      unfolding Job ToEntry by (cases out) (simp_all add: mapped_def)
    then show ?thesis by (intro exI [of _ s]) (auto simp: Job ToEntry)
  next
    case (ToAll a i)
    show ?thesis
    proof (cases out)
      case (Fulfilled v)
      define u where "u = s\<lparr>slots := (slots s)(a := (slots s a)[i := Some v])\<rparr>"
      have "run_job j s = u \<or> run_job j s = settle a (Fulfilled (VArr (map the ((slots s a)[i := Some v])))) u"
        unfolding Job ToAll Fulfilled by (simp add: Let_def u_def)
      then show ?thesis by (intro exI [of _ u]) (auto simp: Job ToAll u_def)
    next
      case (Rejected e)
      then show ?thesis by (intro exI [of _ s]) (auto simp: Job ToAll)
    qed
  qed
qed

lemma step_foreign:
  assumes inv: "cycle_inv rs N L s" and hd: "jobs s = j # js" and f: "job_target j < N"
  shows "cycle_inv rs N (L @ [j]) (run_job j (s\<lparr>jobs := js\<rparr>))"
proof -
  have a: "cycle_inv rs N (L @ [j]) (s\<lparr>jobs := js\<rparr>)" using inv hd f by (rule pop_foreign)
  obtain u where u: "heap u = heap (s\<lparr>jobs := js\<rparr>)" "jobs u = jobs (s\<lparr>jobs := js\<rparr>)"
      "\<forall>b. b \<noteq> job_target j \<longrightarrow> slots u b = slots (s\<lparr>jobs := js\<rparr>) b"
    and r: "run_job j (s\<lparr>jobs := js\<rparr>) = u \<or> (\<exists>out'. run_job j (s\<lparr>jobs := js\<rparr>) = settle (job_target j) out' u)"
    using foreign_run [of "s\<lparr>jobs := js\<rparr>" j] by blast
  have "slots u (N + length rs) = slots (s\<lparr>jobs := js\<rparr>) (N + length rs)" using u(3) f by simp
  with a u(1,2) have b: "cycle_inv rs N (L @ [j]) u" by (rule cycle_inv_cong)
  from r show ?thesis
  proof
    assume "run_job j (s\<lparr>jobs := js\<rparr>) = u"
    then show ?thesis using b by simp
  next
    assume "\<exists>out'. run_job j (s\<lparr>jobs := js\<rparr>) = settle (job_target j) out' u"
    then show ?thesis using settle_inv [OF b f] by auto
  qed
qed

text \<open>What is left to show of the invariant after a job of the cycle has run.\<close>

lemma our_step:
  assumes inv: "cycle_inv rs N L s" and hd: "jobs s = j # js" and ours: "our_job rs N s j"
    and low: "\<And>q. q < N \<Longrightarrow> heap t ! q = heap s ! q"
    and len: "length (heap t) = length (heap s)"
    and gr: "grows s t"
    and sl: "length (slots t (N + length rs)) = length rs"
    and new: "\<And>x. x \<in> set (jobs t) \<Longrightarrow> x \<in> set js \<or> our_job rs N t x"
    and rm: "\<And>i. i < length rs \<Longrightarrow> rec_ok rs N t i \<and> map_ok rs N t i"
    and agg: "agg_ok rs N (L @ [j]) t"
  shows "cycle_inv rs N (L @ [j]) t"
proof -
  have c2: "job_target x < N \<or> our_job rs N t x" if "x \<in> set (jobs t)" for x
  proof -
    from new [OF that] show ?thesis
    proof
      assume "x \<in> set js"
      then have "x \<in> set (jobs s)" using hd by simp
      then have "job_target x < N \<or> our_job rs N s x" using inv by (simp add: cycle_inv_def)
      then show ?thesis using gr our_job_grows by blast
    next
      assume "our_job rs N t x"
      then show ?thesis ..
    qed
  qed
  have c2a: "\<forall>x\<in>set (L @ [j]). job_target x < N \<or> is_cjob (N + length rs + 1) x \<or> job_events x = []"
    using inv our_job_events [OF ours] by (simp add: cycle_inv_def)
  have c2b: "\<forall>q<N. \<forall>qs. heap t ! q = Pending qs \<longrightarrow> (\<forall>r\<in>set qs. target r < N \<or> our_reaction rs N q r)"
    using inv low by (simp add: cycle_inv_def)
  show ?thesis
    unfolding cycle_inv_def using inv len sl c2 c2a c2b rm agg by (simp add: cycle_inv_def)
qed

lemma run_entry: "run_job (Job (ToEntry l m) out) t = settle m (mapped l out) t"
  by (cases out) (simp_all add: mapped_def)

lemma head_entry:
  assumes "our_job rs N s (Job (ToEntry l m) out)"
  obtains i where "i < length rs" "l = listener (rs ! i)" "m = N + i" "heap s ! promise (rs ! i) = Settled out"
  using assms by (auto simp: our_job_def)

lemma head_all:
  assumes "our_job rs N s (Job (ToAll a i) out)"
  shows "a = N + length rs \<and> i < length rs \<and> heap s ! (N + i) = Settled out"
  using assms by (auto simp: our_job_def)

lemma head_children:
  assumes "our_job rs N s (Job (ToChildren d) out)"
  shows "d = N + length rs + 1 \<and> heap s ! (N + length rs) = Settled out"
  using assms by (auto simp: our_job_def)

lemma step_entry:
  assumes inv: "cycle_inv rs N L s" and hd: "jobs s = Job (ToEntry l m) out0 # js"
    and ours: "our_job rs N s (Job (ToEntry l m) out0)"
  shows "cycle_inv rs N (L @ [Job (ToEntry l m) out0]) (run_job (Job (ToEntry l m) out0) (s\<lparr>jobs := js\<rparr>))"
proof -
  define n where "n = length rs"
  define d where "d = N + n + 1"
  have len: "length (heap s) = N + n + 2" and sl: "length (slots s (N + n)) = n"
    and small: "\<forall>r\<in>set rs. promise r < N"
    and rec: "\<And>i. i < n \<Longrightarrow> rec_ok rs N s i" and mp: "\<And>i. i < n \<Longrightarrow> map_ok rs N s i"
    and agg: "agg_ok rs N L s"
    using inv by (simp_all add: cycle_inv_def n_def)
  from ours obtain i where i: "i < n" and l: "l = listener (rs ! i)" and m: "m = N + i"
    and pi: "heap s ! promise (rs ! i) = Settled out0"
    by (rule head_entry) (simp add: n_def)
  define o' where "o' = mapped l out0"
  define t where "t = run_job (Job (ToEntry l m) out0) (s\<lparr>jobs := js\<rparr>)"
  have pN: "promise (rs ! k) < N" if "k < n" for k using small that by (simp add: n_def)
  have sub: "x \<in> set js \<or> x = Job (ToEntry l m) out0" if "x \<in> set (jobs s)" for x
    using that hd by auto
  have facts: "heap t ! m = Settled o'
      \<and> (\<forall>q. q \<noteq> m \<longrightarrow> heap t ! q = heap s ! q)
      \<and> grows s t \<and> length (heap t) = length (heap s)
      \<and> slots t = slots s
      \<and> set js \<subseteq> set (jobs t)
      \<and> filter (is_cjob d) (jobs t) = filter (is_cjob d) (jobs s)
      \<and> (\<forall>x\<in>set (jobs t). x \<in> set js \<or> x = Job (ToAll (N + n) i) o')
      \<and> (Job (ToAll (N + n) i) o' \<in> set (jobs t)
           \<or> (heap s ! m = Settled o' \<and> jobs t = js))"
  proof (cases "heap s ! m")
    case (Pending qs)
    then have qs: "qs = [ToAll (N + n) i]" using mp [OF i] by (simp add: map_ok_def m n_def)
    have "t = s\<lparr>heap := (heap s)[m := Settled o'], jobs := js @ [Job (ToAll (N + n) i) o']\<rparr>"
      unfolding t_def run_entry o'_def [symmetric]
      using settle_pending [of m "s\<lparr>jobs := js\<rparr>" qs o'] Pending len i
      by (simp add: qs m)
    then show ?thesis
      using Pending len i hd by (auto simp: grows_def m nth_list_update)
  next
    case (Settled o2)
    then obtain out where "heap s ! promise (rs ! i) = Settled out" "o2 = mapped (listener (rs ! i)) out"
      using mp [OF i] by (auto simp: map_ok_def m)
    then have o2: "o2 = o'" using pi by (simp add: o'_def l)
    have "t = s\<lparr>jobs := js\<rparr>"
      unfolding t_def run_entry using Settled by (simp add: settle_def)
    then show ?thesis
      using Settled o2 hd by (auto simp: grows_def)
  qed
  then have hm: "heap t ! m = Settled o'"
    and other: "\<And>q. q \<noteq> m \<Longrightarrow> heap t ! q = heap s ! q"
    and gr: "grows s t" and lt: "length (heap t) = length (heap s)"
    and st: "slots t = slots s"
    and keep: "set js \<subseteq> set (jobs t)"
    and cj: "filter (is_cjob d) (jobs t) = filter (is_cjob d) (jobs s)"
    and new: "\<And>x. x \<in> set (jobs t) \<Longrightarrow> x \<in> set js \<or> x = Job (ToAll (N + n) i) o'"
    and queued: "Job (ToAll (N + n) i) o' \<in> set (jobs t) \<or> (heap s ! m = Settled o' \<and> jobs t = js)"
    by blast+
  have pcell: "heap t ! promise (rs ! k) = heap s ! promise (rs ! k)" if "k < n" for k
    using pN [OF that] by (intro other) (simp add: m)
  have mcell: "heap t ! (N + k) = heap s ! (N + k)" if "k \<noteq> i" for k
    using that by (intro other) (simp add: m)
  have acell: "heap t ! (N + n) = heap s ! (N + n)" "heap t ! (N + n + 1) = heap s ! (N + n + 1)"
    using i by (simp_all add: other m)
  have c2: "x \<in> set js \<or> our_job rs N t x" if xt: "x \<in> set (jobs t)" for x
  proof -
    from new [OF xt] show ?thesis
    proof
      assume "x \<in> set js"
      then show ?thesis ..
    next
      assume "x = Job (ToAll (N + n) i) o'"
      then have "our_job rs N t x" using hm i by (auto simp: our_job_def m n_def)
      then show ?thesis ..
    qed
  qed
  have c3: "rec_ok rs N t k" if k: "k < n" for k
  proof -
    have "Job (ToEntry (listener (rs ! k)) (N + k)) out \<in> set (jobs t)
        \<or> heap t ! (N + k) = Settled (mapped (listener (rs ! k)) out)"
      if s: "heap s ! promise (rs ! k) = Settled out" for out
    proof -
      from rec [OF k] s have "Job (ToEntry (listener (rs ! k)) (N + k)) out \<in> set (jobs s)
          \<or> heap s ! (N + k) = Settled (mapped (listener (rs ! k)) out)"
        by (simp add: rec_ok_def)
      then show ?thesis
      proof
        assume "Job (ToEntry (listener (rs ! k)) (N + k)) out \<in> set (jobs s)"
        from sub [OF this] show ?thesis
        proof
          assume "Job (ToEntry (listener (rs ! k)) (N + k)) out \<in> set js"
          then show ?thesis using keep by blast
        next
          assume "Job (ToEntry (listener (rs ! k)) (N + k)) out = Job (ToEntry l m) out0"
          then have "k = i" "out = out0" by (simp_all add: m)
          then show ?thesis using hm by (simp add: o'_def m l)
        qed
      next
        assume "heap s ! (N + k) = Settled (mapped (listener (rs ! k)) out)"
        then show ?thesis using gr by (simp add: grows_def)
      qed
    qed
    then show ?thesis
      using rec [OF k] unfolding rec_ok_def pcell [OF k] by blast
  qed
  have c4: "map_ok rs N t k" if k: "k < n" for k
  proof (cases "k = i")
    case False
    have keepA: "Job (ToAll (N + length rs) k) out \<in> set (jobs t)"
      if "Job (ToAll (N + length rs) k) out \<in> set (jobs s)" for out
      using sub [OF that] keep by auto
    show ?thesis
      using mp [OF k] keepA
      unfolding map_ok_def mcell [OF False] pcell [OF k] st acell [unfolded n_def] by blast
  next
    case True
    have a: "heap t ! (N + i) = Settled o'" using hm by (simp add: m)
    have b: "heap t ! promise (rs ! i) = Settled out0" using pi pcell [OF i] by simp
    have c: "Job (ToAll (N + length rs) i) o' \<in> set (jobs t)
        \<or> (case o' of Fulfilled x \<Rightarrow> slots t (N + length rs) ! i = Some x
             | Rejected e \<Rightarrow> (\<exists>out. heap t ! (N + length rs) = Settled out))"
    proof -
      from queued show ?thesis
      proof
        assume "Job (ToAll (N + n) i) o' \<in> set (jobs t)"
        then show ?thesis by (simp add: n_def)
      next
        assume old: "heap s ! m = Settled o' \<and> jobs t = js"
        then have "Job (ToAll (N + length rs) i) o' \<in> set (jobs s)
            \<or> (case o' of Fulfilled x \<Rightarrow> slots s (N + length rs) ! i = Some x
                 | Rejected e \<Rightarrow> (\<exists>out. heap s ! (N + length rs) = Settled out))"
          using mp [OF i] by (simp add: map_ok_def m)
        then show ?thesis
        proof
          assume "Job (ToAll (N + length rs) i) o' \<in> set (jobs s)"
          from sub [OF this] show ?thesis using keep by auto
        next
          assume "case o' of Fulfilled x \<Rightarrow> slots s (N + length rs) ! i = Some x
                 | Rejected e \<Rightarrow> (\<exists>out. heap s ! (N + length rs) = Settled out)"
          then show ?thesis unfolding st acell [unfolded n_def] by simp
        qed
      qed
    qed
    have e: "heap t ! (N + i) = Settled (Fulfilled x)" if "slots t (N + length rs) ! i = Some x" for x
    proof -
      have "heap s ! (N + i) = Settled (Fulfilled x)"
        using mp [OF i] that by (simp add: map_ok_def st)
      then show ?thesis using gr by (simp add: grows_def)
    qed
    show ?thesis
      unfolding True map_ok_def using a b c e by (auto simp: o'_def l)
  qed
  have c5: "agg_ok rs N (L @ [Job (ToEntry l m) out0]) t"
  proof -
    have r: "\<exists>k<length rs. heap t ! (N + k) = Settled (Rejected e)"
      if "\<exists>k<length rs. heap s ! (N + k) = Settled (Rejected e)" for e
      using that gr by (auto simp: grows_def)
    have "(case out of Fulfilled x \<Rightarrow> filled (slots s (N + length rs)) \<and> x = VArr (map the (slots s (N + length rs)))
          | Rejected e \<Rightarrow> (\<exists>i<length rs. heap s ! (N + i) = Settled (Rejected e)))
      \<Longrightarrow> (case out of Fulfilled x \<Rightarrow> filled (slots s (N + length rs)) \<and> x = VArr (map the (slots s (N + length rs)))
          | Rejected e \<Rightarrow> (\<exists>i<length rs. heap t ! (N + i) = Settled (Rejected e)))" for out
      using r by (cases out) auto
    moreover have "filter (is_cjob (N + length rs + 1)) (L @ [Job (ToEntry l m) out0])
        = filter (is_cjob (N + length rs + 1)) L" by simp
    ultimately show ?thesis
      using agg unfolding agg_ok_def acell [unfolded n_def] st cj [unfolded d_def n_def] by presburger
  qed
  have low: "heap t ! q = heap s ! q" if "q < N" for q using that by (intro other) (simp add: m)
  show ?thesis
    unfolding t_def [symmetric]
    using inv hd ours low lt gr _ c2 _ c5
  proof (rule our_step)
    show "length (slots t (N + length rs)) = length rs" using sl by (simp add: st n_def)
    show "rec_ok rs N t k \<and> map_ok rs N t k" if "k < length rs" for k
      using c3 c4 that by (simp add: n_def)
  qed
qed

lemma run_children:
  "run_job (Job (ToChildren d) out) u
     = settle d (Fulfilled VUndef) (u\<lparr>trace := trace u @ job_events (Job (ToChildren d) out)\<rparr>)"
  by (cases out) simp_all

lemma step_children:
  assumes inv: "cycle_inv rs N L s" and hd: "jobs s = Job (ToChildren d) out0 # js"
    and ours: "our_job rs N s (Job (ToChildren d) out0)"
  shows "cycle_inv rs N (L @ [Job (ToChildren d) out0]) (run_job (Job (ToChildren d) out0) (s\<lparr>jobs := js\<rparr>))"
proof -
  define n where "n = length rs"
  have len: "length (heap s) = N + n + 2" and sl: "length (slots s (N + n)) = n"
    and small: "\<forall>r\<in>set rs. promise r < N"
    and rec: "\<And>i. i < n \<Longrightarrow> rec_ok rs N s i" and mp: "\<And>i. i < n \<Longrightarrow> map_ok rs N s i"
    and agg: "agg_ok rs N L s"
    using inv by (simp_all add: cycle_inv_def n_def)
  from ours have d: "d = N + n + 1" and ha: "heap s ! (N + n) = Settled out0"
    using head_children by (auto simp: n_def)
  have fj: "filter (is_cjob d) (jobs s) = Job (ToChildren d) out0 # filter (is_cjob d) js"
    by (simp add: hd)
  have "filter (is_cjob d) (jobs s) = [Job (ToChildren d) out0]
            \<and> filter (is_cjob d) L = [] \<and> heap s ! d = Pending []
          \<or> filter (is_cjob d) (jobs s) = []
            \<and> filter (is_cjob d) L = [Job (ToChildren d) out0]"
    using agg ha unfolding agg_ok_def d n_def by blast
  then have cj: "filter (is_cjob d) js = []" and cl: "filter (is_cjob d) L = []"
    and hd': "heap s ! d = Pending []"
    unfolding fj by simp_all
  define t where "t = run_job (Job (ToChildren d) out0) (s\<lparr>jobs := js\<rparr>)"
  have t: "t = s\<lparr>heap := (heap s)[d := Settled (Fulfilled VUndef)], jobs := js,
                 trace := trace s @ job_events (Job (ToChildren d) out0)\<rparr>"
    unfolding t_def run_children
    using settle_pending [of d "s\<lparr>jobs := js, trace := trace s @ job_events (Job (ToChildren d) out0)\<rparr>" "[]"]
      hd' len by (simp add: d)
  have other: "heap t ! q = heap s ! q" if "q \<noteq> d" for q using that by (simp add: t)
  have gr: "grows s t" using hd' len by (auto simp: grows_def t nth_list_update d)
  have st: "slots t = slots s" and jt: "jobs t = js" and lt: "length (heap t) = length (heap s)"
    by (simp_all add: t)
  have pN: "promise (rs ! k) < N" if "k < n" for k using small that by (simp add: n_def)
  have pcell: "heap t ! promise (rs ! k) = heap s ! promise (rs ! k)" if "k < n" for k
    using pN [OF that] by (intro other) (simp add: d)
  have mcell: "heap t ! (N + k) = heap s ! (N + k)" if "k < n" for k
    using that by (intro other) (simp add: d)
  have acell: "heap t ! (N + length rs) = heap s ! (N + length rs)"
    by (intro other) (simp add: d n_def)
  have sub: "x \<in> set js" if "x \<in> set (jobs s)" "\<not> is_cjob d x" for x
    using that hd by auto
  have c3: "rec_ok rs N t k" if k: "k < n" for k
  proof -
    have "Job (ToEntry (listener (rs ! k)) (N + k)) out \<in> set js"
      if "Job (ToEntry (listener (rs ! k)) (N + k)) out \<in> set (jobs s)" for out
      using sub [OF that] by simp
    then show ?thesis
      using rec [OF k] unfolding rec_ok_def pcell [OF k] mcell [OF k] jt by blast
  qed
  have c4: "map_ok rs N t k" if k: "k < n" for k
  proof -
    have "Job (ToAll (N + length rs) k) out \<in> set js"
      if "Job (ToAll (N + length rs) k) out \<in> set (jobs s)" for out
      using sub [OF that] by simp
    then show ?thesis
      using mp [OF k] unfolding map_ok_def pcell [OF k] mcell [OF k] jt st acell by blast
  qed
  have c5: "agg_ok rs N (L @ [Job (ToChildren d) out0]) t"
  proof -
    have "case out0 of
            Fulfilled x \<Rightarrow> filled (slots s (N + length rs)) \<and> x = VArr (map the (slots s (N + length rs)))
          | Rejected e \<Rightarrow> (\<exists>i<length rs. heap s ! (N + i) = Settled (Rejected e))"
      using agg ha by (simp add: agg_ok_def n_def)
    then have "case out0 of
            Fulfilled x \<Rightarrow> filled (slots t (N + length rs)) \<and> x = VArr (map the (slots t (N + length rs)))
          | Rejected e \<Rightarrow> (\<exists>i<length rs. heap t ! (N + i) = Settled (Rejected e))"
      using mcell by (cases out0) (auto simp: st n_def)
    moreover have "filter (is_cjob (N + length rs + 1)) (L @ [Job (ToChildren d) out0])
        = [Job (ToChildren (N + length rs + 1)) out0]"
      using cl by (simp add: d n_def)
    ultimately show ?thesis
      unfolding agg_ok_def acell using ha cj by (simp add: n_def jt d)
  qed
  have low: "heap t ! q = heap s ! q" if "q < N" for q using that by (intro other) (simp add: d)
  show ?thesis
    unfolding t_def [symmetric]
    using inv hd ours low lt gr _ _ _ c5
  proof (rule our_step)
    show "length (slots t (N + length rs)) = length rs" using sl by (simp add: st n_def)
    show "x \<in> set js \<or> our_job rs N t x" if "x \<in> set (jobs t)" for x using that jt by simp
    show "rec_ok rs N t k \<and> map_ok rs N t k" if "k < length rs" for k
      using c3 c4 that by (simp add: n_def)
  qed
qed

lemma step_all_rejected:
  assumes inv: "cycle_inv rs N L s" and hd: "jobs s = Job (ToAll a i) (Rejected e) # js"
    and ours: "our_job rs N s (Job (ToAll a i) (Rejected e))"
  shows "cycle_inv rs N (L @ [Job (ToAll a i) (Rejected e)]) (run_job (Job (ToAll a i) (Rejected e)) (s\<lparr>jobs := js\<rparr>))"
proof -
  define n where "n = length rs"
  define d where "d = N + n + 1"
  have len: "length (heap s) = N + n + 2" and sl: "length (slots s (N + n)) = n"
    and small: "\<forall>r\<in>set rs. promise r < N"
    and rec: "\<And>i. i < n \<Longrightarrow> rec_ok rs N s i" and mp: "\<And>i. i < n \<Longrightarrow> map_ok rs N s i"
    and agg: "agg_ok rs N L s"
    using inv by (simp_all add: cycle_inv_def n_def)
  from ours have a: "a = N + n" and i: "i < n" and hm: "heap s ! (N + i) = Settled (Rejected e)"
    using head_all by (auto simp: n_def)
  define t where "t = run_job (Job (ToAll a i) (Rejected e)) (s\<lparr>jobs := js\<rparr>)"
  have sub: "x \<in> set js \<or> x = Job (ToAll a i) (Rejected e)" if "x \<in> set (jobs s)" for x
    using that hd by auto
  have facts: "(\<forall>q. q \<noteq> a \<longrightarrow> heap t ! q = heap s ! q)
      \<and> grows s t \<and> length (heap t) = length (heap s)
      \<and> slots t = slots s
      \<and> set js \<subseteq> set (jobs t)
      \<and> (\<forall>x\<in>set (jobs t). x \<in> set js \<or> x = Job (ToChildren d) (Rejected e) \<and> heap t ! a = Settled (Rejected e))
      \<and> (\<exists>out. heap t ! a = Settled out)
      \<and> (heap t ! a = heap s ! a \<and> filter (is_cjob d) (jobs t) = filter (is_cjob d) (jobs s)
          \<or> (\<exists>qs. heap s ! a = Pending qs) \<and> heap t ! a = Settled (Rejected e)
             \<and> filter (is_cjob d) (jobs t) = [Job (ToChildren d) (Rejected e)])"
  proof (cases "heap s ! a")
    case (Pending qs)
    then have qs: "qs = [ToChildren d]" and cj: "filter (is_cjob d) (jobs s) = []"
      using agg by (simp_all add: agg_ok_def a n_def d_def)
    have "t = s\<lparr>heap := (heap s)[a := Settled (Rejected e)], jobs := js @ [Job (ToChildren d) (Rejected e)]\<rparr>"
      unfolding t_def using settle_pending [of a "s\<lparr>jobs := js\<rparr>" qs "Rejected e"] Pending len
      by (simp add: qs a)
    then show ?thesis
      using Pending len hd cj by (auto simp: grows_def a nth_list_update)
  next
    case (Settled o2)
    have "t = s\<lparr>jobs := js\<rparr>" unfolding t_def using Settled by (simp add: settle_def)
    then show ?thesis using Settled hd by (auto simp: grows_def)
  qed
  then have other: "\<And>q. q \<noteq> a \<Longrightarrow> heap t ! q = heap s ! q"
    and gr: "grows s t" and lt: "length (heap t) = length (heap s)"
    and st: "slots t = slots s"
    and keep: "set js \<subseteq> set (jobs t)"
    and new: "\<And>x. x \<in> set (jobs t) \<Longrightarrow> x \<in> set js \<or> x = Job (ToChildren d) (Rejected e) \<and> heap t ! a = Settled (Rejected e)"
    and settled: "\<exists>out. heap t ! a = Settled out"
    and cases: "heap t ! a = heap s ! a \<and> filter (is_cjob d) (jobs t) = filter (is_cjob d) (jobs s)
          \<or> (\<exists>qs. heap s ! a = Pending qs) \<and> heap t ! a = Settled (Rejected e)
             \<and> filter (is_cjob d) (jobs t) = [Job (ToChildren d) (Rejected e)]"
    by blast+
  have pN: "promise (rs ! k) < N" if "k < n" for k using small that by (simp add: n_def)
  have pcell: "heap t ! promise (rs ! k) = heap s ! promise (rs ! k)" if "k < n" for k
    using pN [OF that] by (intro other) (simp add: a)
  have mcell: "heap t ! (N + k) = heap s ! (N + k)" if "k < n" for k
    using that by (intro other) (simp add: a)
  have dcell: "heap t ! (N + length rs + 1) = heap s ! (N + length rs + 1)"
    by (intro other) (simp add: a n_def)
  have c2: "x \<in> set js \<or> our_job rs N t x" if xt: "x \<in> set (jobs t)" for x
  proof -
    from new [OF xt] show ?thesis
    proof
      assume "x \<in> set js"
      then show ?thesis ..
    next
      assume "x = Job (ToChildren d) (Rejected e) \<and> heap t ! a = Settled (Rejected e)"
      then have "our_job rs N t x" by (simp add: our_job_def d_def a n_def)
      then show ?thesis ..
    qed
  qed
  have c3: "rec_ok rs N t k" if k: "k < n" for k
  proof -
    have "Job (ToEntry (listener (rs ! k)) (N + k)) out \<in> set (jobs t)"
      if "Job (ToEntry (listener (rs ! k)) (N + k)) out \<in> set (jobs s)" for out
      using sub [OF that] keep by auto
    then show ?thesis
      using rec [OF k] unfolding rec_ok_def pcell [OF k] mcell [OF k] by blast
  qed
  have c4: "map_ok rs N t k" if k: "k < n" for k
  proof -
    have 1: "qs = [ToAll (N + length rs) k] \<and> slots t (N + length rs) ! k = None"
      if "heap s ! (N + k) = Pending qs" for qs
      using mp [OF k] that by (simp add: map_ok_def st)
    have 2: "(\<exists>out. heap s ! promise (rs ! k) = Settled out \<and> out' = mapped (listener (rs ! k)) out)
       \<and> (Job (ToAll (N + length rs) k) out' \<in> set (jobs t)
          \<or> (case out' of Fulfilled x \<Rightarrow> slots t (N + length rs) ! k = Some x
                | Rejected e \<Rightarrow> (\<exists>out. heap t ! (N + length rs) = Settled out)))"
      if s: "heap s ! (N + k) = Settled out'" for out'
    proof -
      have p: "\<exists>out. heap s ! promise (rs ! k) = Settled out \<and> out' = mapped (listener (rs ! k)) out"
        and q: "Job (ToAll (N + length rs) k) out' \<in> set (jobs s)
          \<or> (case out' of Fulfilled x \<Rightarrow> slots s (N + length rs) ! k = Some x
                | Rejected e \<Rightarrow> (\<exists>out. heap s ! (N + length rs) = Settled out))"
        using mp [OF k] s by (simp_all add: map_ok_def)
      from q have "Job (ToAll (N + length rs) k) out' \<in> set (jobs t)
          \<or> (case out' of Fulfilled x \<Rightarrow> slots t (N + length rs) ! k = Some x
                | Rejected e \<Rightarrow> (\<exists>out. heap t ! (N + length rs) = Settled out))"
      proof
        assume "Job (ToAll (N + length rs) k) out' \<in> set (jobs s)"
        from sub [OF this] show ?thesis
        proof
          assume "Job (ToAll (N + length rs) k) out' \<in> set js"
          then show ?thesis using keep by blast
        next
          assume "Job (ToAll (N + length rs) k) out' = Job (ToAll a i) (Rejected e)"
          then have "out' = Rejected e" by simp
          then show ?thesis using settled by (simp add: a n_def)
        qed
      next
        assume "case out' of Fulfilled x \<Rightarrow> slots s (N + length rs) ! k = Some x
                | Rejected e \<Rightarrow> (\<exists>out. heap s ! (N + length rs) = Settled out)"
        then have "case out' of Fulfilled x \<Rightarrow> slots t (N + length rs) ! k = Some x
                | Rejected e \<Rightarrow> (\<exists>out. heap t ! (N + length rs) = Settled out)"
          using settled by (cases out') (auto simp: st a n_def)
        then show ?thesis ..
      qed
      with p show ?thesis by blast
    qed
    have 3: "heap s ! (N + k) = Settled (Fulfilled x)" if "slots t (N + length rs) ! k = Some x" for x
      using mp [OF k] that by (simp add: map_ok_def st)
    show ?thesis
      unfolding map_ok_def pcell [OF k] mcell [OF k] using 1 2 3 by blast
  qed
  have fl: "filter (is_cjob (N + length rs + 1)) (L @ [Job (ToAll a i) (Rejected e)])
        = filter (is_cjob (N + length rs + 1)) L" by simp
  have c5: "agg_ok rs N (L @ [Job (ToAll a i) (Rejected e)]) t"
  proof -
    from cases show ?thesis
    proof
      assume same: "heap t ! a = heap s ! a \<and> filter (is_cjob d) (jobs t) = filter (is_cjob d) (jobs s)"
      have m: "heap t ! (N + k) = heap s ! (N + k)" if "k < length rs" for k
        using mcell that by (simp add: n_def)
      have "(\<exists>k<length rs. heap t ! (N + k) = Settled (Rejected x)) 
          = (\<exists>k<length rs. heap s ! (N + k) = Settled (Rejected x))" for x
        using m by auto
      then have "(case out of Fulfilled x \<Rightarrow> filled (slots s (N + length rs)) \<and> x = VArr (map the (slots s (N + length rs)))
          | Rejected e \<Rightarrow> (\<exists>i<length rs. heap t ! (N + i) = Settled (Rejected e)))
        = (case out of Fulfilled x \<Rightarrow> filled (slots s (N + length rs)) \<and> x = VArr (map the (slots s (N + length rs)))
          | Rejected e \<Rightarrow> (\<exists>i<length rs. heap s ! (N + i) = Settled (Rejected e)))" for out
        by (cases out) simp_all
      then show ?thesis
        using agg same unfolding agg_ok_def dcell st fl by (simp add: a n_def d_def)
    next
      assume fresh: "(\<exists>qs. heap s ! a = Pending qs) \<and> heap t ! a = Settled (Rejected e)
             \<and> filter (is_cjob d) (jobs t) = [Job (ToChildren d) (Rejected e)]"
      then obtain qs where "heap s ! (N + length rs) = Pending qs" by (auto simp: a n_def)
      then have old: "filter (is_cjob (N + length rs + 1)) L = []" "heap s ! (N + length rs + 1) = Pending []"
        using agg by (simp_all add: agg_ok_def)
      have "\<exists>k<length rs. heap t ! (N + k) = Settled (Rejected e)"
        using hm i mcell [OF i] by (auto simp: n_def)
      then show ?thesis
        using fresh old unfolding agg_ok_def dcell fl by (simp add: a n_def d_def)
    qed
  qed
  have low: "heap t ! q = heap s ! q" if "q < N" for q using that by (intro other) (simp add: a)
  show ?thesis
    unfolding t_def [symmetric]
    using inv hd ours low lt gr _ c2 _ c5
  proof (rule our_step)
    show "length (slots t (N + length rs)) = length rs" using sl by (simp add: st n_def)
    show "rec_ok rs N t k \<and> map_ok rs N t k" if "k < length rs" for k
      using c3 c4 that by (simp add: n_def)
  qed
qed

lemma step_all_fulfilled:
  assumes inv: "cycle_inv rs N L s" and hd: "jobs s = Job (ToAll a i) (Fulfilled x) # js"
    and ours: "our_job rs N s (Job (ToAll a i) (Fulfilled x))"
  shows "cycle_inv rs N (L @ [Job (ToAll a i) (Fulfilled x)]) (run_job (Job (ToAll a i) (Fulfilled x)) (s\<lparr>jobs := js\<rparr>))"
proof -
  define n where "n = length rs"
  define d where "d = N + n + 1"
  have len: "length (heap s) = N + n + 2" and sl: "length (slots s (N + n)) = n"
    and small: "\<forall>r\<in>set rs. promise r < N"
    and rec: "\<And>i. i < n \<Longrightarrow> rec_ok rs N s i" and mp: "\<And>i. i < n \<Longrightarrow> map_ok rs N s i"
    and agg: "agg_ok rs N L s"
    using inv by (simp_all add: cycle_inv_def n_def)
  from ours have a: "a = N + n" and i: "i < n" and hm: "heap s ! (N + i) = Settled (Fulfilled x)"
    using head_all by (auto simp: n_def)
  define vs where "vs = (slots s a)[i := Some x]"
  define s1 where "s1 = s\<lparr>jobs := js, slots := (slots s)(a := vs)\<rparr>"
  define t where "t = run_job (Job (ToAll a i) (Fulfilled x)) (s\<lparr>jobs := js\<rparr>)"
  have t1: "t = (if filled vs then settle a (Fulfilled (VArr (map the vs))) s1 else s1)"
    by (simp add: t_def vs_def s1_def Let_def)
  have sub: "y \<in> set js \<or> y = Job (ToAll a i) (Fulfilled x)" if "y \<in> set (jobs s)" for y
    using that hd by auto
  have vi: "vs ! i = Some x" and vk: "\<And>k. k \<noteq> i \<Longrightarrow> vs ! k = slots s a ! k"
    and lv: "length vs = n"
    using i sl by (simp_all add: vs_def a)
  have same: "vs = slots s a" if "filled (slots s a)"
  proof -
    have "slots s a ! i \<noteq> None" using that i sl by (simp add: filled_def list_all_length a)
    then obtain y where y: "slots s a ! i = Some y" by auto
    then have "heap s ! (N + i) = Settled (Fulfilled y)"
      using mp [OF i] by (simp add: map_ok_def a n_def)
    then have "y = x" using hm by simp
    then have "(slots s a)[i := Some x] = slots s a" using y list_update_id [of "slots s a" i] by simp
    then show ?thesis by (simp add: vs_def)
  qed
  have facts: "(\<forall>q. q \<noteq> a \<longrightarrow> heap t ! q = heap s ! q)
      \<and> grows s t \<and> length (heap t) = length (heap s)
      \<and> slots t a = vs
      \<and> set js \<subseteq> set (jobs t)
      \<and> (\<forall>y\<in>set (jobs t). y \<in> set js \<or> (\<exists>out. y = Job (ToChildren d) out \<and> heap t ! a = Settled out))
      \<and> (heap t ! a = heap s ! a \<and> filter (is_cjob d) (jobs t) = filter (is_cjob d) (jobs s)
            \<and> ((\<exists>qs. heap s ! a = Pending qs) \<longrightarrow> \<not> filled vs)
          \<or> (\<exists>qs. heap s ! a = Pending qs) \<and> filled vs \<and> heap t ! a = Settled (Fulfilled (VArr (map the vs)))
             \<and> filter (is_cjob d) (jobs t) = [Job (ToChildren d) (Fulfilled (VArr (map the vs)))])"
  proof (cases "filled vs")
    case False
    then have "t = s1" by (simp add: t1)
    then show ?thesis using False hd by (auto simp: grows_def s1_def)
  next
    case True
    show ?thesis
    proof (cases "heap s ! a")
      case (Pending qs)
      then have qs: "qs = [ToChildren d]" and cj: "filter (is_cjob d) (jobs s) = []"
        using agg by (simp_all add: agg_ok_def a n_def d_def)
      have "t = s1\<lparr>heap := (heap s)[a := Settled (Fulfilled (VArr (map the vs)))],
                   jobs := js @ [Job (ToChildren d) (Fulfilled (VArr (map the vs)))]\<rparr>"
        unfolding t1 using settle_pending [of a s1 qs] Pending len True
        by (simp add: qs a s1_def)
      then show ?thesis
        using Pending len hd cj True by (auto simp: grows_def a nth_list_update s1_def)
    next
      case (Settled o2)
      have "t = s1" unfolding t1 using Settled by (simp add: settle_def s1_def)
      then show ?thesis using Settled hd by (auto simp: grows_def s1_def)
    qed
  qed
  then have other: "\<And>q. q \<noteq> a \<Longrightarrow> heap t ! q = heap s ! q"
    and gr: "grows s t" and lt: "length (heap t) = length (heap s)"
    and st: "slots t a = vs"
    and keep: "set js \<subseteq> set (jobs t)"
    and new: "\<And>y. y \<in> set (jobs t) \<Longrightarrow> y \<in> set js \<or> (\<exists>out. y = Job (ToChildren d) out \<and> heap t ! a = Settled out)"
    and cases: "heap t ! a = heap s ! a \<and> filter (is_cjob d) (jobs t) = filter (is_cjob d) (jobs s)
            \<and> ((\<exists>qs. heap s ! a = Pending qs) \<longrightarrow> \<not> filled vs)
          \<or> (\<exists>qs. heap s ! a = Pending qs) \<and> filled vs \<and> heap t ! a = Settled (Fulfilled (VArr (map the vs)))
             \<and> filter (is_cjob d) (jobs t) = [Job (ToChildren d) (Fulfilled (VArr (map the vs)))]"
    by blast+
  have st': "slots t (N + length rs) = vs" using st by (simp add: a n_def)
  have pN: "promise (rs ! k) < N" if "k < n" for k using small that by (simp add: n_def)
  have pcell: "heap t ! promise (rs ! k) = heap s ! promise (rs ! k)" if "k < n" for k
    using pN [OF that] by (intro other) (simp add: a)
  have mcell: "heap t ! (N + k) = heap s ! (N + k)" if "k < n" for k
    using that by (intro other) (simp add: a)
  have dcell: "heap t ! (N + length rs + 1) = heap s ! (N + length rs + 1)"
    by (intro other) (simp add: a n_def)
  have settled: "\<exists>out. heap t ! (N + length rs) = Settled out" if "heap s ! (N + length rs) = Settled out0" for out0
    using gr that by (auto simp: grows_def)
  have c2: "y \<in> set js \<or> our_job rs N t y" if yt: "y \<in> set (jobs t)" for y
  proof -
    from new [OF yt] show ?thesis
    proof
      assume "y \<in> set js"
      then show ?thesis ..
    next
      assume "\<exists>out. y = Job (ToChildren d) out \<and> heap t ! a = Settled out"
      then have "our_job rs N t y" by (auto simp: our_job_def d_def a n_def)
      then show ?thesis ..
    qed
  qed
  have c3: "rec_ok rs N t k" if k: "k < n" for k
  proof -
    have "Job (ToEntry (listener (rs ! k)) (N + k)) out \<in> set (jobs t)"
      if "Job (ToEntry (listener (rs ! k)) (N + k)) out \<in> set (jobs s)" for out
      using sub [OF that] keep by auto
    then show ?thesis
      using rec [OF k] unfolding rec_ok_def pcell [OF k] mcell [OF k] by blast
  qed
  have c4: "map_ok rs N t k" if k: "k < n" for k
  proof -
    have 1: "qs = [ToAll (N + length rs) k] \<and> vs ! k = None"
      if p: "heap s ! (N + k) = Pending qs" for qs
    proof -
      have "k \<noteq> i" using p hm by auto
      then show ?thesis using mp [OF k] p vk by (simp add: map_ok_def a n_def)
    qed
    have 2: "(\<exists>out. heap s ! promise (rs ! k) = Settled out \<and> out' = mapped (listener (rs ! k)) out)
       \<and> (Job (ToAll (N + length rs) k) out' \<in> set (jobs t)
          \<or> (case out' of Fulfilled x \<Rightarrow> vs ! k = Some x
                | Rejected e \<Rightarrow> (\<exists>out. heap t ! (N + length rs) = Settled out)))"
      if s: "heap s ! (N + k) = Settled out'" for out'
    proof -
      have p: "\<exists>out. heap s ! promise (rs ! k) = Settled out \<and> out' = mapped (listener (rs ! k)) out"
        and q: "Job (ToAll (N + length rs) k) out' \<in> set (jobs s)
          \<or> (case out' of Fulfilled x \<Rightarrow> slots s (N + length rs) ! k = Some x
                | Rejected e \<Rightarrow> (\<exists>out. heap s ! (N + length rs) = Settled out))"
        using mp [OF k] s by (simp_all add: map_ok_def)
      have "Job (ToAll (N + length rs) k) out' \<in> set (jobs t)
          \<or> (case out' of Fulfilled x \<Rightarrow> vs ! k = Some x
                | Rejected e \<Rightarrow> (\<exists>out. heap t ! (N + length rs) = Settled out))"
      proof (cases "k = i")
        case True
        then have "out' = Fulfilled x" using s hm by simp
        then show ?thesis using vi True by simp
      next
        case False
        from q show ?thesis
        proof
          assume "Job (ToAll (N + length rs) k) out' \<in> set (jobs s)"
          from sub [OF this] False have "Job (ToAll (N + length rs) k) out' \<in> set js" by auto
          then show ?thesis using keep by blast
        next
          assume "case out' of Fulfilled x \<Rightarrow> slots s (N + length rs) ! k = Some x
                | Rejected e \<Rightarrow> (\<exists>out. heap s ! (N + length rs) = Settled out)"
          then have "case out' of Fulfilled x \<Rightarrow> vs ! k = Some x
                | Rejected e \<Rightarrow> (\<exists>out. heap t ! (N + length rs) = Settled out)"
            using settled vk [OF False] by (cases out') (auto simp: a n_def)
          then show ?thesis ..
        qed
      qed
      with p show ?thesis by blast
    qed
    have 3: "heap s ! (N + k) = Settled (Fulfilled y)" if v: "vs ! k = Some y" for y
    proof (cases "k = i")
      case True
      then show ?thesis using v vi hm by simp
    next
      case False
      then show ?thesis using mp [OF k] v vk [OF False] by (simp add: map_ok_def a n_def)
    qed
    show ?thesis
      unfolding map_ok_def pcell [OF k] mcell [OF k] st' using 1 2 3 by blast
  qed
  have fl: "filter (is_cjob (N + length rs + 1)) (L @ [Job (ToAll a i) (Fulfilled x)])
        = filter (is_cjob (N + length rs + 1)) L" by simp
  have c5: "agg_ok rs N (L @ [Job (ToAll a i) (Fulfilled x)]) t"
  proof -
    have m: "heap t ! (N + k) = heap s ! (N + k)" if "k < length rs" for k
      using mcell that by (simp add: n_def)
    have rj: "(\<exists>k<length rs. heap t ! (N + k) = Settled (Rejected e))
          = (\<exists>k<length rs. heap s ! (N + k) = Settled (Rejected e))" for e
      using m by auto
    from cases show ?thesis
    proof
      assume A: "heap t ! a = heap s ! a \<and> filter (is_cjob d) (jobs t) = filter (is_cjob d) (jobs s)
            \<and> ((\<exists>qs. heap s ! a = Pending qs) \<longrightarrow> \<not> filled vs)"
      show ?thesis
      proof (cases "heap s ! a")
        case (Pending qs)
        then have "\<not> filled vs" using A by blast
        then show ?thesis
          using agg A Pending unfolding agg_ok_def dcell st' fl by (simp add: a n_def d_def)
      next
        case (Settled out)
        have "(case out of Fulfilled x \<Rightarrow> filled (slots s (N + length rs)) \<and> x = VArr (map the (slots s (N + length rs)))
          | Rejected e \<Rightarrow> (\<exists>i<length rs. heap s ! (N + i) = Settled (Rejected e)))"
          using agg Settled by (simp add: agg_ok_def a n_def)
        then have "(case out of Fulfilled x \<Rightarrow> filled vs \<and> x = VArr (map the vs)
          | Rejected e \<Rightarrow> (\<exists>i<length rs. heap t ! (N + i) = Settled (Rejected e)))"
          using same rj by (cases out) (auto simp: a n_def)
        then show ?thesis
          using agg A Settled unfolding agg_ok_def dcell st' fl by (simp add: a n_def d_def)
      qed
    next
      assume B: "(\<exists>qs. heap s ! a = Pending qs) \<and> filled vs
             \<and> heap t ! a = Settled (Fulfilled (VArr (map the vs)))
             \<and> filter (is_cjob d) (jobs t) = [Job (ToChildren d) (Fulfilled (VArr (map the vs)))]"
      then obtain qs where "heap s ! (N + length rs) = Pending qs" by (auto simp: a n_def)
      then have old: "filter (is_cjob (N + length rs + 1)) L = []" "heap s ! (N + length rs + 1) = Pending []"
        using agg by (simp_all add: agg_ok_def)
      show ?thesis
        using B old unfolding agg_ok_def dcell st' fl by (simp add: a n_def d_def)
    qed
  qed
  have low: "heap t ! q = heap s ! q" if "q < N" for q using that by (intro other) (simp add: a)
  show ?thesis
    unfolding t_def [symmetric]
    using inv hd ours low lt gr _ c2 _ c5
  proof (rule our_step)
    show "length (slots t (N + length rs)) = length rs" using lv by (simp add: st' n_def)
    show "rec_ok rs N t k \<and> map_ok rs N t k" if "k < length rs" for k
      using c3 c4 that by (simp add: n_def)
  qed
qed

lemma step_inv:
  assumes inv: "cycle_inv rs N L s" and hd: "jobs s = j # js"
  shows "cycle_inv rs N (L @ [j]) (run_job j (s\<lparr>jobs := js\<rparr>))"
proof -
  have "job_target j < N \<or> our_job rs N s j" using inv hd by (simp add: cycle_inv_def)
  then show ?thesis
  proof
    assume "job_target j < N"
    with inv hd show ?thesis by (rule step_foreign)
  next
    assume ours: "our_job rs N s j"
    show ?thesis
    proof (cases j)
      case (Job r out)
      show ?thesis
      proof (cases r)
        case (ToChildren d)
        then show ?thesis using step_children [OF inv] hd ours Job by simp
      next
        case (ToEntry l m)
        then show ?thesis using step_entry [OF inv] hd ours Job by simp
      next
        case (ToAll a i)
        show ?thesis
        proof (cases out)
          case (Fulfilled x)
          then show ?thesis using step_all_fulfilled [OF inv] hd ours Job ToAll by simp
        next
          case (Rejected e)
          then show ?thesis using step_all_rejected [OF inv] hd ours Job ToAll by simp
        qed
      qed
    qed
  qed
qed

lemma drain_jobs_Nil: "jobs s = [] \<Longrightarrow> drain_jobs s = []"
  by (subst drain_jobs.simps) simp

lemma drain_jobs_Cons: "jobs s = j # js \<Longrightarrow> drain_jobs s = j # drain_jobs (run_job j (s\<lparr>jobs := js\<rparr>))"
  by (subst drain_jobs.simps) simp

lemma drain_inv: "cycle_inv rs N L s \<Longrightarrow> cycle_inv rs N (L @ drain_jobs s) (drain s)"
proof (induction s arbitrary: L rule: drain.induct)
  case (1 s)
  show ?case
  proof (cases "jobs s")
    case Nil
    then show ?thesis using 1 by (simp add: drain_Nil drain_jobs_Nil)
  next
    case (Cons j js)
    have "cycle_inv rs N ((L @ [j]) @ drain_jobs (run_job j (s\<lparr>jobs := js\<rparr>))) (drain (run_job j (s\<lparr>jobs := js\<rparr>)))"
      using Cons step_inv [OF "1.prems" Cons] by (intro "1.IH")
    then show ?thesis using Cons by (simp add: drain_Cons drain_jobs_Cons)
  qed
qed

lemma drain_trace: "trace (drain s) = trace s @ concat (map job_events (drain_jobs s))"
proof (induction s rule: drain.induct)
  case (1 s)
  show ?case
  proof (cases "jobs s")
    case Nil
    then show ?thesis by (simp add: drain_Nil drain_jobs_Nil)
  next
    case (Cons j js)
    then show ?thesis using 1 by (simp add: drain_Cons drain_jobs_Cons run_job_trace)
  qed
qed

lemma later_Cons: "later (ev # evs) s = later evs (outside_step ev s)"
  by (simp add: later_def)

lemma later_trace: "trace (later evs s) = trace s @ concat (map job_events (ran evs s))"
proof (induction evs arbitrary: s)
  case Nil
  then show ?case by (simp add: later_def)
next
  case (Cons ev evs)
  have "trace (outside_step ev s) = trace s @ concat (map job_events (outside_jobs ev s))"
    by (cases ev) (simp_all add: settle_trace drain_trace)
  then show ?case using Cons [of "outside_step ev s"] by (simp add: later_Cons)
qed

lemma later_inv:
  assumes "cycle_inv rs N L s" and "list_all (is_old N) evs"
  shows "cycle_inv rs N (L @ ran evs s) (later evs s)"
  using assms
proof (induction evs arbitrary: s L)
  case Nil
  then show ?case by (simp add: later_def)
next
  case (Cons ev evs)
  have "cycle_inv rs N (L @ outside_jobs ev s) (outside_step ev s)"
  proof (cases ev)
    case (Settles p out)
    then have "p < N" using Cons.prems(2) by simp
    then show ?thesis using settle_inv [OF Cons.prems(1)] Settles by simp
  next
    case RunsJobs
    then show ?thesis using drain_inv [OF Cons.prems(1)] by simp
  qed
  then have "cycle_inv rs N ((L @ outside_jobs ev s) @ ran evs (outside_step ev s)) (later evs (outside_step ev s))"
    using Cons.prems(2) by (intro Cons.IH) simp_all
  then show ?case by (simp add: later_Cons)
qed

lemma handle_many_inv:
  assumes rs: "dispatchPromises s1 = rs" and two: "2 \<le> length rs"
    and fresh: "\<forall>r\<in>set rs. promise r < length (heap s1)" and cl: "closed s1"
  shows "cycle_inv rs (length (heap s1)) [] (snd (handleDispatchPromises s1))
    \<and> trace (snd (handleDispatchPromises s1)) = trace s1
    \<and> fst (handleDispatchPromises s1) = VPromise (length (heap s1) + length rs + 1)
    \<and> (jobs s1 = [] \<and> (\<forall>c\<in>set (heap s1). \<forall>qs. c = Pending qs \<longrightarrow> qs = [])
          \<longrightarrow> alone (length (heap s1)) [] (snd (handleDispatchPromises s1)))"
proof -
  define N where "N = length (heap s1)"
  define n where "n = length rs"
  define a where "a = N + n"
  define d where "d = N + n + 1"
  define s0 where "s0 = s1\<lparr>dispatchPromises := []\<rparr>"
  define ms where "ms = fst (map_then rs s0)"
  define t1 where "t1 = snd (map_then rs s0)"
  have h0: "heap s0 = heap s1" "jobs s0 = jobs s1" "trace s0 = trace s1"
    by (simp_all add: s0_def)
  have small0: "\<forall>r\<in>set rs. promise r < length (heap s0)"
    using fresh by (simp add: h0)
  note M = map_then_general [OF small0, folded ms_def t1_def, unfolded h0, folded N_def n_def]
  have ms: "ms = [N ..< N + n]" using M by blast
  have t1_only: "promise_only s0 t1" using M by blast
  have t1_len: "length (heap t1) = N + n" using M by blast
  have t1_q: "heap t1 ! q = after_reactions (heap s1 ! q) (entry_reactions q N rs)" if "q < N" for q
    using M that by blast
  have t1_m: "heap t1 ! (N + k) = Pending []" if "k < n" for k
    using M that by blast
  have t1_jobs: "jobs t1 = jobs s1 @ entry_jobs (heap s1) N rs" using M by simp
  define t2 where "t2 = t1\<lparr>heap := heap t1 @ [Pending []], slots := (slots t1)(a := replicate n None)\<rparr>"
  define t3 where "t3 = all_attach a 0 ms t2"
  have pa: "promise_all ms t1 = (a, t3)"
    using two by (auto simp: promise_all_def new_promise_def Let_def t1_len a_def t2_def t3_def ms n_def)
  have t2_heap: "heap t2 = heap t1 @ [Pending []]" by (simp add: t2_def)
  have pre3: "\<forall>m\<in>set ms. m < length (heap t2) \<and> heap t2 ! m = Pending []"
  proof
    fix m assume "m \<in> set ms"
    then obtain k where k: "k < n" "m = N + k" unfolding ms by (auto simp: nat_le_iff_add)
    then show "m < length (heap t2) \<and> heap t2 ! m = Pending []"
      using t1_m [of k] by (simp add: t2_heap t1_len nth_append)
  qed
  have dms: "distinct ms" by (simp add: ms)
  note A = all_attach_fresh [OF pre3 dms, of a 0, folded t3_def]
  have t3_only: "heap_only t2 t3" using A by blast
  have t3_len: "length (heap t3) = N + n + 1" using A by (simp add: t2_heap t1_len)
  have t3_m: "heap t3 ! (N + k) = Pending [ToAll a k]" if "k < n" for k
  proof -
    have "ms ! k = N + k" "k < length ms" using that by (simp_all add: ms)
    then show ?thesis using A by (metis add_0)
  qed
  have t3_other: "heap t3 ! q = heap t2 ! q" if "q \<notin> set ms" for q
    using A that by blast
  have small: "promise (rs ! i) < N" if "i < n" for i
    using fresh that by (simp add: N_def n_def)
  have t3_q: "heap t3 ! q = after_reactions (heap s1 ! q) (entry_reactions q N rs)" if "q < N" for q
  proof -
    have "q \<notin> set ms" using that by (simp add: ms)
    then have "heap t3 ! q = heap t2 ! q" by (rule t3_other)
    also have "\<dots> = heap t1 ! q"
      using that by (simp add: t2_heap nth_append t1_len)
    finally show ?thesis using t1_q [OF that] by simp
  qed
  have t3_a: "heap t3 ! a = Pending []"
  proof -
    have "a \<notin> set ms" by (simp add: ms a_def)
    then have "heap t3 ! a = heap t2 ! a" by (rule t3_other)
    then show ?thesis by (simp add: t2_heap nth_append t1_len a_def)
  qed
  define s2 where "s2 = t3\<lparr>heap := (heap t3 @ [Pending []])[a := Pending [ToChildren d]]\<rparr>"
  have rv: "resolve (VPromise a) t3 = (VPromise d, s2)"
    using t3_a by (simp add: resolve_def then_children_def new_promise_def attach_def t3_len
        nth_append a_def d_def s2_def)
  obtain r r' rest where shape: "rs = r # r' # rest"
    using two by (cases rs; cases "tl rs") auto
  have "resolve_records rs s0 = (VPromise d, s2)"
    unfolding resolve_records_def shape list.case
    using pa rv by (simp add: ms_def [symmetric] t1_def [symmetric] shape [symmetric] split_def)
  then have res: "snd (handleDispatchPromises s1) = s2" and res1: "fst (handleDispatchPromises s1) = VPromise d"
    by (simp_all add: handleDispatchPromises_def rs s0_def)
  have f1: "trace t1 = trace s1" "jobs t1 = jobs s1 @ entry_jobs (heap s1) N rs"
    using promise_only_fields [OF t1_only] h0 t1_jobs by simp_all
  have f2: "jobs t2 = jobs s1 @ entry_jobs (heap s1) N rs" "trace t2 = trace s1" "slots t2 a = replicate n None"
    using f1 by (simp_all add: t2_def)
  have f3: "jobs t3 = jobs s1 @ entry_jobs (heap s1) N rs" "trace t3 = trace s1" "slots t3 a = replicate n None"
    using heap_only_fields [OF t3_only] f2 by simp_all
  have g1: "jobs s2 = jobs s1 @ entry_jobs (heap s1) N rs" "trace s2 = trace s1" "slots s2 a = replicate n None"
    using f3 by (simp_all add: s2_def)
  have g2: "length (heap s2) = N + n + 2" by (simp add: s2_def t3_len)
  have g3: "heap s2 ! a = Pending [ToChildren d]" by (simp add: s2_def t3_len a_def)
  have g4: "heap s2 ! d = Pending []" by (simp add: s2_def t3_len a_def d_def nth_append)
  have g5: "heap s2 ! q = after_reactions (heap s1 ! q) (entry_reactions q N rs)" if "q < N" for q
    using t3_q [OF that] that by (simp add: s2_def a_def nth_append t3_len)
  have g6: "heap s2 ! (N + i) = Pending [ToAll a i]" if "i < n" for i
    using t3_m [OF that] that by (simp add: s2_def a_def nth_append t3_len)
  have n1: "0 < n" using two by (auto simp: n_def)
  have c1: "length (slots s2 (N + n)) = n" using g1 by (simp add: a_def)
  have c0: "\<forall>r\<in>set rs. promise r < N" using fresh by (simp add: N_def)
  have old_jobs: "job_target j < N" if "j \<in> set (jobs s1)" for j
    using cl that by (simp add: closed_def N_def)
  have old_cell: "\<forall>r\<in>set qs. target r < N" if "q < N" "heap s1 ! q = Pending qs" for q qs
  proof -
    have "heap s1 ! q \<in> set (heap s1)" using that(1) by (simp add: N_def)
    then have "\<forall>x\<in>set (cell_targets (heap s1 ! q)). x < N" using cl by (simp add: closed_def N_def)
    then show ?thesis using that(2) by simp
  qed
  have c2: "job_target j < N \<or> our_job rs N s2 j" if "j \<in> set (jobs s2)" for j
  proof (cases "j \<in> set (jobs s1)")
    case True
    then show ?thesis using old_jobs by blast
  next
    case False
    then have "j \<in> set (entry_jobs (heap s1) N rs)" using that by (simp add: g1)
    then obtain k out where k: "k < n" and j: "j = Job (ToEntry (listener (rs ! k)) (N + k)) out"
      and s: "heap s1 ! promise (rs ! k) = Settled out"
      unfolding entry_jobs_set by (auto simp: n_def)
    have "heap s2 ! promise (rs ! k) = Settled out"
      using g5 [OF small [OF k]] s by (simp add: after_reactions_def)
    then have "our_job rs N s2 j" using k j by (auto simp: our_job_def n_def)
    then show ?thesis ..
  qed
  have c2b: "\<forall>r\<in>set qs. target r < N \<or> our_reaction rs N q r"
    if q: "q < N" and p: "heap s2 ! q = Pending qs" for q qs
  proof (cases "heap s1 ! q")
    case (Pending qs0)
    then have "qs = qs0 @ entry_reactions q N rs"
      using g5 [OF q] p by (simp add: after_reactions_def)
    moreover have "\<forall>r\<in>set qs0. target r < N" using old_cell [OF q Pending] .
    moreover have "\<forall>r\<in>set (entry_reactions q N rs). our_reaction rs N q r"
      using entry_reactions_set [of _ q N rs] by (auto simp: our_reaction_def)
    ultimately show ?thesis by auto
  next
    case (Settled out)
    then show ?thesis using g5 [OF q] p by (simp add: after_reactions_def)
  qed
  have c3: "rec_ok rs N s2 i" if i: "i < n" for i
  proof (cases "heap s1 ! promise (rs ! i)")
    case (Pending qs)
    then have h: "heap s2 ! promise (rs ! i) = Pending (qs @ entry_reactions (promise (rs ! i)) N rs)"
      using g5 [OF small [OF i]] Pending by (simp add: after_reactions_def)
    have "ToEntry (listener (rs ! i)) (N + i) \<in> set (entry_reactions (promise (rs ! i)) N rs)"
      unfolding entry_reactions_set using i by (auto simp: n_def)
    then show ?thesis unfolding rec_ok_def h by simp
  next
    case (Settled out)
    then have h: "heap s2 ! promise (rs ! i) = Settled out"
      using g5 [OF small [OF i]] by (simp add: after_reactions_def)
    have "Job (ToEntry (listener (rs ! i)) (N + i)) out \<in> set (entry_jobs (heap s1) N rs)"
      unfolding entry_jobs_set using i Settled by (auto simp: n_def)
    then show ?thesis unfolding rec_ok_def h by (simp add: g1)
  qed
  have c4: "map_ok rs N s2 i" if i: "i < n" for i
    unfolding map_ok_def using g6 [OF i] g1 i by (simp add: a_def n_def)
  have ncj1: "\<not> is_cjob d j" if "j \<in> set (jobs s1)" for j
    using old_jobs [OF that] is_cjob_target [of d j] by (auto simp: d_def)
  have ncj2: "\<not> is_cjob d j" if "j \<in> set (entry_jobs (heap s1) N rs)" for j
    using that unfolding entry_jobs_set by auto
  have c5: "agg_ok rs N [] s2"
  proof -
    have "\<not> filled (replicate n None)" using n1 by (cases n) (simp_all add: filled_def)
    moreover have "filter (is_cjob d) (jobs s2) = []"
      using ncj1 ncj2 by (auto simp: g1 filter_empty_conv)
    ultimately show ?thesis
      unfolding agg_ok_def using g1 g3 g4 by (simp add: a_def d_def n_def)
  qed
  have c6: "alone N [] s2" if q: "jobs s1 = []" and e: "\<forall>c\<in>set (heap s1). \<forall>qs. c = Pending qs \<longrightarrow> qs = []"
  proof -
    have j: "N \<le> job_target j" if "j \<in> set (jobs s2)" for j
    proof -
      have "j \<in> set (entry_jobs (heap s1) N rs)" using that by (simp add: g1 q)
      then show ?thesis using entry_jobs_set [of j "heap s1" N rs] by auto
    qed
    have c: "\<forall>r\<in>set qs. N \<le> target r" if "c \<in> set (heap s2)" "c = Pending qs" for c qs
    proof -
      from that(1) obtain x where x: "x < N + n + 2" "c = heap s2 ! x"
        by (auto simp: in_set_conv_nth g2)
      have "x < N \<or> (x - N < n \<and> x = N + (x - N)) \<or> x = a \<or> x = d"
        using x(1) unfolding a_def d_def by arith
      then consider "x < N" | k where "k < n" "x = N + k" | "x = a" | "x = d"
        by blast
      then show ?thesis
      proof cases
        case 1
        show ?thesis
        proof (cases "heap s1 ! x")
          case (Pending qs0)
          have "heap s1 ! x \<in> set (heap s1)" using 1 by (simp add: N_def)
          then have "qs0 = []" using e Pending by blast
          then have "qs = entry_reactions x N rs"
            using g5 [OF 1] Pending x(2) that(2) by (simp add: after_reactions_def)
          then show ?thesis using entry_reactions_set [of _ x N rs] by auto
        next
          case (Settled out)
          then show ?thesis using g5 [OF 1] x(2) that(2) by (simp add: after_reactions_def)
        qed
      next
        case 2
        then show ?thesis using g6 [of k] x(2) that(2) by (auto simp: a_def)
      next
        case 3
        then show ?thesis using g3 x(2) that(2) by (auto simp: d_def)
      next
        case 4
        then show ?thesis using g4 x(2) that(2) by auto
      qed
    qed
    have "\<forall>x\<in>set (cell_targets c). N \<le> x" if "c \<in> set (heap s2)" for c
      using c [OF that] by (cases c) auto
    then show ?thesis unfolding alone_def using j by simp
  qed
  show ?thesis
    unfolding res res1 cycle_inv_def N_def [symmetric] n_def [symmetric]
    using c0 c1 c2 c2b c3 c4 c5 c6 g2 g1(2) by (simp add: d_def)
qed

lemma closed_cong: "closed s \<Longrightarrow> heap t = heap s \<Longrightarrow> jobs t = jobs s \<Longrightarrow> closed t"
  by (simp add: closed_def)

lemma closed_init: "closed init"
  by (simp add: closed_def init_def)

lemma closed_cell:
  assumes "closed s" and "p < length (heap s)" and "heap s ! p = Pending qs"
  shows "\<forall>r\<in>set qs. target r < length (heap s)"
proof -
  have "heap s ! p \<in> set (heap s)" using assms(2) by simp
  then have "\<forall>x\<in>set (cell_targets (heap s ! p)). x < length (heap s)"
    using assms(1) by (simp add: closed_def)
  then show ?thesis using assms(3) by simp
qed

lemma closed_update:
  assumes "closed s" and "length h = length (heap s)"
    and "\<forall>c\<in>set h. c \<in> set (heap s) \<or> (\<forall>d\<in>set (cell_targets c). d < length (heap s))"
    and "\<forall>j\<in>set js. j \<in> set (jobs s) \<or> job_target j < length (heap s)"
  shows "closed (s\<lparr>heap := h, jobs := js\<rparr>)"
  using assms unfolding closed_def by auto

lemma new_promise_closed: "closed s \<Longrightarrow> closed (snd (new_promise s))"
  unfolding closed_def new_promise_def by (auto simp: less_Suc_eq)

lemma attach_closed:
  assumes "closed s" and "target r < length (heap s)"
  shows "closed (attach p r s)"
proof (cases "p < length (heap s)")
  case False
  then show ?thesis using assms(1) by (simp add: attach_def)
next
  case True
  show ?thesis
  proof (cases "heap s ! p")
    case (Pending qs)
    have old: "\<forall>r\<in>set qs. target r < length (heap s)" using assms(1) True Pending by (rule closed_cell)
    have "closed (s\<lparr>heap := (heap s)[p := Pending (qs @ [r])], jobs := jobs s\<rparr>)"
      using assms(1)
    proof (rule closed_update)
      show "\<forall>c\<in>set ((heap s)[p := Pending (qs @ [r])]). c \<in> set (heap s)
          \<or> (\<forall>d\<in>set (cell_targets c). d < length (heap s))"
      proof
        fix c assume "c \<in> set ((heap s)[p := Pending (qs @ [r])])"
        then have "c = Pending (qs @ [r]) \<or> c \<in> set (heap s)"
          using set_update_subset_insert [of "heap s" p "Pending (qs @ [r])"] by auto
        then show "c \<in> set (heap s) \<or> (\<forall>d\<in>set (cell_targets c). d < length (heap s))"
          using old assms(2) by auto
      qed
    qed simp_all
    then show ?thesis using True Pending by (simp add: attach_def)
  next
    case (Settled out)
    have "closed (s\<lparr>heap := heap s, jobs := jobs s @ [Job r out]\<rparr>)"
      using assms(1) by (rule closed_update) (simp_all add: assms(2))
    then show ?thesis using True Settled by (simp add: attach_def)
  qed
qed

lemma settle_closed:
  assumes "closed s"
  shows "closed (settle p out s)"
proof (cases "p < length (heap s)")
  case False
  then show ?thesis using assms by (simp add: settle_def)
next
  case True
  show ?thesis
  proof (cases "heap s ! p")
    case (Pending qs)
    have old: "\<forall>r\<in>set qs. target r < length (heap s)" using assms True Pending by (rule closed_cell)
    have "closed (s\<lparr>heap := (heap s)[p := Settled out], jobs := jobs s @ map (\<lambda>r. Job r out) qs\<rparr>)"
      using assms
    proof (rule closed_update)
      show "\<forall>c\<in>set ((heap s)[p := Settled out]). c \<in> set (heap s)
          \<or> (\<forall>d\<in>set (cell_targets c). d < length (heap s))"
      proof
        fix c assume "c \<in> set ((heap s)[p := Settled out])"
        then have "c = Settled out \<or> c \<in> set (heap s)"
          using set_update_subset_insert [of "heap s" p "Settled out"] by auto
        then show "c \<in> set (heap s) \<or> (\<forall>d\<in>set (cell_targets c). d < length (heap s))"
          by auto
      qed
      show "\<forall>j\<in>set (jobs s @ map (\<lambda>r. Job r out) qs). j \<in> set (jobs s) \<or> job_target j < length (heap s)"
        using old by auto
    qed simp
    then show ?thesis using True Pending by (simp add: settle_def)
  next
    case (Settled out0)
    then show ?thesis using assms by (simp add: settle_def)
  qed
qed

lemma run_job_closed:
  assumes "closed s"
  shows "closed (run_job j s)"
proof -
  obtain u where u: "heap u = heap s" "jobs u = jobs s"
    and r: "run_job j s = u \<or> (\<exists>out'. run_job j s = settle (job_target j) out' u)"
    using foreign_run [of s j] by blast
  have "closed u" using assms u by (rule closed_cong)
  then show ?thesis using r settle_closed by auto
qed

lemma pop_closed: "closed s \<Longrightarrow> jobs s = j # js \<Longrightarrow> closed (s\<lparr>jobs := js\<rparr>)"
  by (simp add: closed_def)

lemma drain_closed: "closed s \<Longrightarrow> closed (drain s)"
proof (induction s rule: drain.induct)
  case (1 s)
  show ?case
  proof (cases "jobs s")
    case Nil
    then show ?thesis using 1 by (simp add: drain_Nil)
  next
    case (Cons j js)
    have "closed (run_job j (s\<lparr>jobs := js\<rparr>))"
      using pop_closed [OF "1.prems" Cons] by (rule run_job_closed)
    then show ?thesis using 1 Cons by (simp add: drain_Cons)
  qed
qed

lemma then_children_closed: "closed s \<Longrightarrow> closed (snd (then_children p s))"
  unfolding then_children_def split_def Let_def snd_conv
  by (rule attach_closed [OF new_promise_closed]) (simp_all add: new_promise_def)

lemma then_entry_closed: "closed s \<Longrightarrow> closed (snd (then_entry item s))"
  unfolding then_entry_def split_def Let_def snd_conv
  by (rule attach_closed [OF new_promise_closed]) (simp_all add: new_promise_def)

lemma map_then_closed: "closed s \<Longrightarrow> closed (snd (map_then items s))"
proof (induction items arbitrary: s)
  case Nil
  then show ?case by simp
next
  case (Cons item items)
  have "closed (snd (map_then items (snd (then_entry item s))))"
    using then_entry_closed [OF Cons.prems] by (rule Cons.IH)
  then show ?case by (simp add: split_def Let_def)
qed

lemma attach_length: "length (heap (attach p r s)) = length (heap s)"
  by (simp add: attach_def split: pstate.splits)

lemma all_attach_closed: "closed s \<Longrightarrow> a < length (heap s) \<Longrightarrow> closed (all_attach a i ms s)"
proof (induction ms arbitrary: s i)
  case Nil
  then show ?case by simp
next
  case (Cons m ms)
  have "closed (attach m (ToAll a i) s)" using Cons.prems by (intro attach_closed) simp_all
  moreover have "a < length (heap (attach m (ToAll a i) s))" using Cons.prems(2) by (simp add: attach_length)
  ultimately show ?case using Cons.IH by simp
qed

lemma promise_all_closed:
  assumes "closed s"
  shows "closed (snd (promise_all ms s))"
proof -
  define s1 where "s1 = snd (new_promise s)"
  define s2 where "s2 = s1\<lparr>slots := (slots s1)(length (heap s) := replicate (length ms) None)\<rparr>"
  have "closed s1" unfolding s1_def using assms by (rule new_promise_closed)
  then have "closed s2" by (rule closed_cong) (simp_all add: s2_def)
  moreover have "length (heap s) < length (heap s2)" by (simp add: s2_def s1_def new_promise_def)
  ultimately have 3: "closed (all_attach (length (heap s)) 0 ms s2)" by (rule all_attach_closed)
  have "snd (promise_all ms s) = (if ms = []
      then settle (length (heap s)) (Fulfilled (VArr [])) (all_attach (length (heap s)) 0 ms s2)
      else all_attach (length (heap s)) 0 ms s2)"
    by (simp add: promise_all_def new_promise_def Let_def s2_def s1_def)
  then show ?thesis using 3 settle_closed [OF 3] by (cases "ms = []") simp_all
qed

lemma resolve_closed: "closed s \<Longrightarrow> closed (snd (resolve v s))"
  using then_children_closed by (cases v) (simp_all add: resolve_def split_def Let_def closed_def)

lemma resolve_records_closed:
  assumes "closed s"
  shows "closed (snd (resolve_records rs s))"
proof (cases rs)
  case Nil
  then show ?thesis using assms by (simp add: resolve_records_def)
next
  case (Cons r rest)
  show ?thesis
  proof (cases rest)
    case Nil
    then show ?thesis using Cons assms resolve_closed by (simp add: resolve_records_def)
  next
    case (Cons r' rest')
    have "closed (snd (resolve (VPromise (fst (promise_all (fst (map_then rs s)) (snd (map_then rs s)))))
                    (snd (promise_all (fst (map_then rs s)) (snd (map_then rs s))))))"
      by (intro resolve_closed promise_all_closed map_then_closed assms)
    then show ?thesis
      unfolding resolve_records_def \<open>rs = r # rest\<close> Cons list.case
      by (simp add: split_def Let_def)
  qed
qed

lemma handle_closed: "closed s \<Longrightarrow> closed (snd (handleDispatchPromises s))"
  unfolding handleDispatchPromises_def Let_def
  by (rule resolve_records_closed) (simp add: closed_def)

lemma keeps_closedD: "keeps_closed f \<Longrightarrow> closed s \<Longrightarrow> f x s = Some s' \<Longrightarrow> closed s'"
  unfolding keeps_closed_def by blast

lemma unsubscribe_closed: "closed s \<Longrightarrow> closed (unsubscribe u s)"
  by (simp add: closed_def unsubscribe_def removeListener_def)

lemma listen_closed: "closed s \<Longrightarrow> closed (snd (listen cb s))"
  by (simp add: closed_def listen_def addListener_def Let_def)

lemma run_action_closed:
  assumes "keeps_closed again" and "closed s" and "run_action again a s = Some s'"
  shows "closed s'"
proof (cases a)
  case (Unsubscribe u)
  then show ?thesis using assms(2,3) unsubscribe_closed by auto
next
  case (Subscribe cb)
  then show ?thesis using assms(2,3) listen_closed by auto
next
  case (Retrigger args)
  then show ?thesis using assms keeps_closedD [of again s args s'] by simp
qed

lemma run_actions_closed:
  assumes "keeps_closed again" and "closed s" and "run_actions again acts s = Some s'"
  shows "closed s'"
  using assms(2,3)
proof (induction acts arbitrary: s)
  case Nil
  then show ?case by simp
next
  case (Cons a acts)
  from Cons.prems(2) obtain s1 where a: "run_action again a s = Some s1"
    and r: "run_actions again acts s1 = Some s'"
    by (auto split: option.splits)
  have "closed s1" using assms(1) Cons.prems(1) a by (rule run_action_closed)
  then show ?case using r by (rule Cons.IH)
qed

lemma call_user_closed:
  assumes "keeps_closed again" and "closed s" and "call_user again P f this args s = Some (v, s')"
  shows "closed s'"
proof -
  have 1: "closed (s\<lparr>trace := trace s @ [Called f this args]\<rparr>)"
    using assms(2) by (simp add: closed_def)
  have 2: "run_actions again (fst (body P f this args s)) (s\<lparr>trace := trace s @ [Called f this args]\<rparr>) = Some s'"
    using assms(3) by (auto simp: call_user_def split_def Let_def split: option.splits)
  show ?thesis using assms(1) 1 2 by (rule run_actions_closed)
qed

lemma apply_fn_closed:
  assumes "keeps_closed again" and "closed s" and "apply_fn again P cb this args s = Some (v, s')"
  shows "closed s'"
proof (cases cb)
  case (User f)
  then have "call_user again P f this args s = Some (v, s')" using assms(3) by simp
  with assms(1,2) show ?thesis by (rule call_user_closed)
next
  case (OnceWrapper u f captured ctx)
  then have "call_user again P f ctx captured (unsubscribe u s) = Some (v, s')"
    using assms(3) by simp
  with assms(1) unsubscribe_closed [OF assms(2)] show ?thesis by (rule call_user_closed)
qed

lemma eventHandler_closed:
  assumes "keeps_closed again" and "closed s" and "eventHandler again P args u s = Some s'"
  shows "closed s'"
proof (cases "aborted s u")
  case True
  then show ?thesis using assms(2,3) by (simp add: eventHandler_def)
next
  case False
  then obtain v s1 where
    ap: "apply_fn again P (callback s u) VPublisher args (s\<lparr>trace := trace s @ [Invoked u]\<rparr>) = Some (v, s1)"
    using assms(3) by (auto simp: eventHandler_def split: option.splits)
  have "closed (s\<lparr>trace := trace s @ [Invoked u]\<rparr>)" using assms(2) by (simp add: closed_def)
  with assms(1) have s1: "closed s1" using ap by (rule apply_fn_closed)
  have "heap s' = heap s1 \<and> jobs s' = jobs s1"
    using assms(3) False ap by (cases v) (auto simp: eventHandler_def Let_def split: if_splits)
  then show ?thesis using s1 closed_cong by blast
qed

lemma eventHandler_keeps_closed: "keeps_closed again \<Longrightarrow> keeps_closed (eventHandler again P args)"
  unfolding keeps_closed_def [of "eventHandler again P args"] using eventHandler_closed by blast

lemma deliver_closed:
  assumes "keeps_closed handler" and "closed s" and "deliver handler hs s = Some s'"
  shows "closed s'"
  using assms(2,3)
proof (induction hs arbitrary: s)
  case Nil
  then show ?case by simp
next
  case (Cons u hs)
  from Cons.prems(2) obtain s1 where a: "handler u s = Some s1"
    and r: "deliver handler hs s1 = Some s'"
    by (auto split: option.splits)
  have "closed s1" using assms(1) Cons.prems(1) a by (rule keeps_closedD)
  then show ?case using r by (rule Cons.IH)
qed

lemma emit_closed:
  assumes "keeps_closed again" and "closed s" and "emit again P args s = Some s'"
  shows "closed s'"
  using eventHandler_keeps_closed [OF assms(1)] assms(2) assms(3) [unfolded emit_def]
  by (rule deliver_closed)

lemma triggerSync_body_closed:
  assumes "keeps_closed again" and "closed s" and "triggerSync_body again P args s = Some s'"
  shows "closed s'"
proof (cases "truthy (shouldEmit P (emit_args P args))")
  case False
  then show ?thesis using assms(2,3) by (simp add: triggerSync_body_def)
next
  case True
  then obtain s1 where
    e: "emit again P (emit_args P args) (s\<lparr>dispatchPromises := []\<rparr>) = Some s1"
    and r: "s' = snd (handleDispatchPromises s1)"
    using assms(3) by (auto simp: triggerSync_body_def Let_def split: option.splits)
  have "closed (s\<lparr>dispatchPromises := []\<rparr>)" using assms(2) by (simp add: closed_def)
  with assms(1) have "closed s1" using e by (rule emit_closed)
  then show ?thesis using r by (simp add: handle_closed)
qed

lemma triggerSync_keeps_closed: "keeps_closed (triggerSync n P)"
proof (induction n)
  case 0
  then show ?case by (simp add: keeps_closed_def)
next
  case (Suc n)
  show ?case
    unfolding keeps_closed_def
  proof (intro allI impI)
    fix args s s'
    assume "closed s" and "triggerSync (Suc n) P args s = Some s'"
    then show "closed s'"
      using triggerSync_body_closed [OF Suc, of s P args s'] by simp
  qed
qed

lemma exec_closed:
  assumes "closed s" and "exec n P x s = Some s'"
  shows "closed s'"
proof (cases x)
  case (Listen cb)
  then show ?thesis using assms listen_closed by auto
next
  case (ListenOnce f c)
  then show ?thesis using assms listen_closed by (auto simp: listenOnce_def Let_def)
next
  case (Unsub u)
  then show ?thesis using assms unsubscribe_closed by auto
next
  case (TriggerSync args)
  then show ?thesis using assms keeps_closedD [OF triggerSync_keeps_closed] by auto
next
  case (Resolve v)
  then show ?thesis using assms resolve_closed by auto
next
  case (Settle p out)
  then show ?thesis using assms settle_closed by auto
next
  case RunJobs
  then show ?thesis using assms drain_closed by auto
qed

lemma execs_closed: "closed s \<Longrightarrow> execs n P xs s = Some s' \<Longrightarrow> closed s'"
proof (induction xs arbitrary: s)
  case Nil
  then show ?case by simp
next
  case (Cons x xs)
  from Cons.prems(2) obtain s1 where a: "exec n P x s = Some s1"
    and r: "execs n P xs s1 = Some s'"
    by (auto split: option.splits)
  have "closed s1" using Cons.prems(1) a by (rule exec_closed)
  then show ?case using r by (rule Cons.IH)
qed

lemma alone_cong: "alone N L s \<Longrightarrow> heap t = heap s \<Longrightarrow> jobs t = jobs s \<Longrightarrow> alone N L t"
  by (simp add: alone_def)

lemma settle_alone:
  assumes "alone N L s"
  shows "alone N L (settle p out s)"
proof (cases "p < length (heap s)")
  case False
  then show ?thesis using assms by (simp add: settle_def)
next
  case True
  show ?thesis
  proof (cases "heap s ! p")
    case (Pending qs)
    have "heap s ! p \<in> set (heap s)" using True by simp
    then have "\<forall>x\<in>set (cell_targets (heap s ! p)). N \<le> x" using assms by (simp add: alone_def)
    then have old: "\<forall>r\<in>set qs. N \<le> target r" using Pending by simp
    have cells: "\<forall>x\<in>set (cell_targets c). N \<le> x" if "c \<in> set ((heap s)[p := Settled out])" for c
    proof -
      have "c = Settled out \<or> c \<in> set (heap s)"
        using that set_update_subset_insert [of "heap s" p "Settled out"] by auto
      then show ?thesis using assms by (auto simp: alone_def)
    qed
    have "alone N L (s\<lparr>heap := (heap s)[p := Settled out], jobs := jobs s @ map (\<lambda>r. Job r out) qs\<rparr>)"
      unfolding alone_def using assms old cells by (auto simp: alone_def)
    then show ?thesis using True Pending by (simp add: settle_def)
  next
    case (Settled out0)
    then show ?thesis using assms by (simp add: settle_def)
  qed
qed

lemma step_alone:
  assumes "alone N L s" and "jobs s = j # js"
  shows "alone N (L @ [j]) (run_job j (s\<lparr>jobs := js\<rparr>))"
proof -
  have a: "alone N (L @ [j]) (s\<lparr>jobs := js\<rparr>)" using assms by (simp add: alone_def)
  obtain u where u: "heap u = heap (s\<lparr>jobs := js\<rparr>)" "jobs u = jobs (s\<lparr>jobs := js\<rparr>)"
    and r: "run_job j (s\<lparr>jobs := js\<rparr>) = u \<or> (\<exists>out'. run_job j (s\<lparr>jobs := js\<rparr>) = settle (job_target j) out' u)"
    using foreign_run [of "s\<lparr>jobs := js\<rparr>" j] by blast
  have "alone N (L @ [j]) u" using a u by (rule alone_cong)
  then show ?thesis using r settle_alone by auto
qed

lemma drain_alone: "alone N L s \<Longrightarrow> alone N (L @ drain_jobs s) (drain s)"
proof (induction s arbitrary: L rule: drain.induct)
  case (1 s)
  show ?case
  proof (cases "jobs s")
    case Nil
    then show ?thesis using 1 by (simp add: drain_Nil drain_jobs_Nil)
  next
    case (Cons j js)
    have "alone N ((L @ [j]) @ drain_jobs (run_job j (s\<lparr>jobs := js\<rparr>))) (drain (run_job j (s\<lparr>jobs := js\<rparr>)))"
      using Cons step_alone [OF "1.prems" Cons] by (intro "1.IH")
    then show ?thesis using Cons by (simp add: drain_Cons drain_jobs_Cons)
  qed
qed

lemma later_alone: "alone N L s \<Longrightarrow> alone N (L @ ran evs s) (later evs s)"
proof (induction evs arbitrary: s L)
  case Nil
  then show ?case by (simp add: later_def)
next
  case (Cons ev evs)
  have "alone N (L @ outside_jobs ev s) (outside_step ev s)"
    using Cons.prems by (cases ev) (simp_all add: settle_alone drain_alone)
  then have "alone N ((L @ outside_jobs ev s) @ ran evs (outside_step ev s)) (later evs (outside_step ev s))"
    by (rule Cons.IH)
  then show ?case by (simp add: later_Cons)
qed

lemma concat_filter:
  "\<forall>x\<in>set xs. P x \<or> f x = [] \<Longrightarrow> concat (map f xs) = concat (map f (filter P xs))"
  by (induction xs) auto

lemma alone_events:
  assumes "cycle_inv rs N L s" and "alone N L s"
  shows "concat (map job_events L) = triggered (N + length rs + 1) L"
proof -
  have "\<forall>j\<in>set L. is_cjob (N + length rs + 1) j \<or> job_events j = []"
    using assms by (fastforce simp: cycle_inv_def alone_def)
  then show ?thesis unfolding triggered_def by (rule concat_filter)
qed

lemma quiet_facts:
  assumes inv: "cycle_inv rs N L t" and q: "jobs t = []" and i: "i < length rs"
  shows "heap t ! promise (rs ! i) = Settled out \<Longrightarrow> heap t ! (N + i) = Settled (mapped (listener (rs ! i)) out)"
    and "heap t ! (N + i) = Settled (Fulfilled x) \<Longrightarrow> slots t (N + length rs) ! i = Some x"
    and "heap t ! (N + i) = Settled (Rejected e) \<Longrightarrow> \<exists>out. heap t ! (N + length rs) = Settled out"
    and "heap t ! (N + i) = Settled out' \<Longrightarrow>
           \<exists>out. heap t ! promise (rs ! i) = Settled out \<and> out' = mapped (listener (rs ! i)) out"
    and "heap t ! (N + i) = Pending qs \<Longrightarrow> slots t (N + length rs) ! i = None"
    and "slots t (N + length rs) ! i = Some x \<Longrightarrow> heap t ! (N + i) = Settled (Fulfilled x)"
proof -
  have r: "rec_ok rs N t i" and m: "map_ok rs N t i" using inv i by (simp_all add: cycle_inv_def)
  have r2: "\<And>out. heap t ! promise (rs ! i) = Settled out \<Longrightarrow>
         Job (ToEntry (listener (rs ! i)) (N + i)) out \<in> set (jobs t)
       \<or> heap t ! (N + i) = Settled (mapped (listener (rs ! i)) out)"
    using r unfolding rec_ok_def by blast
  have m1: "\<And>qs. heap t ! (N + i) = Pending qs \<Longrightarrow> slots t (N + length rs) ! i = None"
    using m unfolding map_ok_def by blast
  have m2: "\<And>out'. heap t ! (N + i) = Settled out' \<Longrightarrow>
         (\<exists>out. heap t ! promise (rs ! i) = Settled out \<and> out' = mapped (listener (rs ! i)) out)"
    using m unfolding map_ok_def by blast
  have m3: "\<And>out'. heap t ! (N + i) = Settled out' \<Longrightarrow>
          Job (ToAll (N + length rs) i) out' \<in> set (jobs t)
          \<or> (case out' of Fulfilled x \<Rightarrow> slots t (N + length rs) ! i = Some x
                | Rejected e \<Rightarrow> (\<exists>out. heap t ! (N + length rs) = Settled out))"
    using m unfolding map_ok_def by blast
  have m4: "\<And>x. slots t (N + length rs) ! i = Some x \<Longrightarrow> heap t ! (N + i) = Settled (Fulfilled x)"
    using m unfolding map_ok_def by blast
  show "heap t ! promise (rs ! i) = Settled out \<Longrightarrow> heap t ! (N + i) = Settled (mapped (listener (rs ! i)) out)"
    using r2 [of out] q by simp
  show "heap t ! (N + i) = Settled (Fulfilled x) \<Longrightarrow> slots t (N + length rs) ! i = Some x"
    using m3 [of "Fulfilled x"] q by simp
  show "heap t ! (N + i) = Settled (Rejected e) \<Longrightarrow> \<exists>out. heap t ! (N + length rs) = Settled out"
    using m3 [of "Rejected e"] q by simp
  show "heap t ! (N + i) = Settled out' \<Longrightarrow>
           \<exists>out. heap t ! promise (rs ! i) = Settled out \<and> out' = mapped (listener (rs ! i)) out"
    by (rule m2)
  show "heap t ! (N + i) = Pending qs \<Longrightarrow> slots t (N + length rs) ! i = None"
    by (rule m1)
  show "slots t (N + length rs) ! i = Some x \<Longrightarrow> heap t ! (N + i) = Settled (Fulfilled x)"
    by (rule m4)
qed

lemma quiet_aggregate:
  assumes inv: "cycle_inv rs N L t" and q: "jobs t = []"
  shows "heap t ! (N + length rs) = Pending qs \<Longrightarrow>
           triggered (N + length rs + 1) L = [] \<and> \<not> filled (slots t (N + length rs))"
    and "heap t ! (N + length rs) = Settled (Fulfilled x) \<Longrightarrow>
           filled (slots t (N + length rs)) \<and> x = VArr (map the (slots t (N + length rs)))
           \<and> triggered (N + length rs + 1) L = [Triggered Completed x]"
    and "heap t ! (N + length rs) = Settled (Rejected e) \<Longrightarrow>
           (\<exists>i<length rs. heap t ! (N + i) = Settled (Rejected e))
           \<and> triggered (N + length rs + 1) L = [Triggered Failed e]"
proof -
  have a: "agg_ok rs N L t" using inv by (simp add: cycle_inv_def)
  have a1: "\<And>qs. heap t ! (N + length rs) = Pending qs \<Longrightarrow>
         filter (is_cjob (N + length rs + 1)) L = [] \<and> \<not> filled (slots t (N + length rs))"
    using a unfolding agg_ok_def by blast
  have a2: "\<And>out. heap t ! (N + length rs) = Settled out \<Longrightarrow>
         (case out of
            Fulfilled x \<Rightarrow> filled (slots t (N + length rs)) \<and> x = VArr (map the (slots t (N + length rs)))
          | Rejected e \<Rightarrow> (\<exists>i<length rs. heap t ! (N + i) = Settled (Rejected e)))"
    using a unfolding agg_ok_def by blast
  have a3: "\<And>out. heap t ! (N + length rs) = Settled out \<Longrightarrow>
         filter (is_cjob (N + length rs + 1)) (jobs t) = [Job (ToChildren (N + length rs + 1)) out]
          \<or> filter (is_cjob (N + length rs + 1)) L = [Job (ToChildren (N + length rs + 1)) out]"
    using a unfolding agg_ok_def by blast
  show "heap t ! (N + length rs) = Pending qs \<Longrightarrow>
           triggered (N + length rs + 1) L = [] \<and> \<not> filled (slots t (N + length rs))"
    using a1 [of qs] by (simp add: triggered_def)
  show "heap t ! (N + length rs) = Settled (Fulfilled x) \<Longrightarrow>
           filled (slots t (N + length rs)) \<and> x = VArr (map the (slots t (N + length rs)))
           \<and> triggered (N + length rs + 1) L = [Triggered Completed x]"
    using a2 [of "Fulfilled x"] a3 [of "Fulfilled x"] q by (simp add: triggered_def)
  show "heap t ! (N + length rs) = Settled (Rejected e) \<Longrightarrow>
           (\<exists>i<length rs. heap t ! (N + i) = Settled (Rejected e))
           \<and> triggered (N + length rs + 1) L = [Triggered Failed e]"
    using a2 [of "Rejected e"] a3 [of "Rejected e"] q by (simp add: triggered_def)
qed

lemma quiet_completed:
  assumes inv: "cycle_inv rs N L t" and q: "jobs t = []"
    and all: "\<forall>i<length rs. heap t ! promise (rs ! i) = Settled (Fulfilled (V i))"
  shows "triggered (N + length rs + 1) L = [Triggered Completed (entries rs V)]"
proof -
  define n where "n = length rs"
  define vs where "vs = slots t (N + length rs)"
  have lv: "length vs = n" using inv by (simp add: cycle_inv_def vs_def n_def)
  have m: "heap t ! (N + i) = Settled (Fulfilled (VEntry (listener (rs ! i)) (V i)))" if "i < n" for i
    using quiet_facts(1) [OF inv q, of i] that all by (simp add: n_def mapped_fulfilled)
  have sl: "vs ! i = Some (VEntry (listener (rs ! i)) (V i))" if "i < n" for i
    using quiet_facts(2) [OF inv q _ m [OF that]] that by (simp add: n_def vs_def)
  have vs: "vs = map (\<lambda>i. Some (VEntry (listener (rs ! i)) (V i))) [0..<n]"
    by (rule nth_equalityI) (simp_all add: lv sl)
  have f: "filled vs" by (simp add: vs filled_def list_all_iff)
  have e: "VArr (map the vs) = entries rs V" by (simp add: vs entries_def n_def comp_def)
  show ?thesis
  proof (cases "heap t ! (N + length rs)")
    case (Pending qs)
    then show ?thesis using quiet_aggregate(1) [OF inv q] f by (simp add: vs_def)
  next
    case (Settled out)
    show ?thesis
    proof (cases out)
      case (Fulfilled x)
      then show ?thesis using quiet_aggregate(2) [OF inv q, of x] Settled e by (simp add: vs_def)
    next
      case (Rejected e)
      then obtain i where "i < n" "heap t ! (N + i) = Settled (Rejected e)"
        using quiet_aggregate(3) [OF inv q, of e] Settled by (auto simp: n_def)
      then show ?thesis using m by simp
    qed
  qed
qed

lemma quiet_waiting:
  assumes inv: "cycle_inv rs N L t" and q: "jobs t = []"
    and none: "\<forall>i<length rs. \<forall>e. heap t ! promise (rs ! i) \<noteq> Settled (Rejected e)"
    and some: "i < length rs" "heap t ! promise (rs ! i) = Pending qs"
  shows "triggered (N + length rs + 1) L = []"
proof -
  have mi: "\<exists>qs'. heap t ! (N + i) = Pending qs'"
  proof (cases "heap t ! (N + i)")
    case (Pending qs')
    then show ?thesis by simp
  next
    case (Settled out')
    then show ?thesis using quiet_facts(4) [OF inv q some(1)] some(2) by auto
  qed
  then have si: "slots t (N + length rs) ! i = None"
    using quiet_facts(5) [OF inv q some(1)] by blast
  have lv: "length (slots t (N + length rs)) = length rs" using inv by (simp add: cycle_inv_def)
  have nf: "\<not> filled (slots t (N + length rs))"
    using si some(1) lv by (auto simp: filled_def list_all_length)
  show ?thesis
  proof (cases "heap t ! (N + length rs)")
    case (Pending qs)
    then show ?thesis using quiet_aggregate(1) [OF inv q] by simp
  next
    case (Settled out)
    show ?thesis
    proof (cases out)
      case (Fulfilled x)
      then show ?thesis using quiet_aggregate(2) [OF inv q, of x] Settled nf by simp
    next
      case (Rejected e)
      then obtain k where k: "k < length rs" "heap t ! (N + k) = Settled (Rejected e)"
        using quiet_aggregate(3) [OF inv q, of e] Settled by auto
      then obtain out where "heap t ! promise (rs ! k) = Settled out" "Rejected e = mapped (listener (rs ! k)) out"
        using quiet_facts(4) [OF inv q k(1)] by blast
      then have "heap t ! promise (rs ! k) = Settled (Rejected e)"
        using mapped_rejected [of "listener (rs ! k)" out e] by simp
      then show ?thesis using none k(1) by blast
    qed
  qed
qed

lemma quiet_failed:
  assumes inv: "cycle_inv rs N L t" and q: "jobs t = []"
    and some: "i < length rs" "heap t ! promise (rs ! i) = Settled (Rejected e)"
  shows "\<exists>k<length rs. \<exists>e'. heap t ! promise (rs ! k) = Settled (Rejected e')
           \<and> triggered (N + length rs + 1) L = [Triggered Failed e']"
proof -
  have mi: "heap t ! (N + i) = Settled (Rejected e)"
    using quiet_facts(1) [OF inv q some] by (simp add: mapped_def)
  then obtain out where a: "heap t ! (N + length rs) = Settled out"
    using quiet_facts(3) [OF inv q some(1)] by blast
  have lv: "length (slots t (N + length rs)) = length rs" using inv by (simp add: cycle_inv_def)
  show ?thesis
  proof (cases out)
    case (Fulfilled x)
    then have "filled (slots t (N + length rs))" using quiet_aggregate(2) [OF inv q, of x] a by simp
    then have "slots t (N + length rs) ! i \<noteq> None"
      using some(1) lv by (simp add: filled_def list_all_length)
    then obtain y where "slots t (N + length rs) ! i = Some y" by auto
    then have "heap t ! (N + i) = Settled (Fulfilled y)"
      by (rule quiet_facts(6) [OF inv q some(1)])
    then show ?thesis using mi by simp
  next
    case (Rejected e')
    then obtain k where k: "k < length rs" "heap t ! (N + k) = Settled (Rejected e')"
      and tr: "triggered (N + length rs + 1) L = [Triggered Failed e']"
      using quiet_aggregate(3) [OF inv q, of e'] a by auto
    obtain out where "heap t ! promise (rs ! k) = Settled out" "Rejected e' = mapped (listener (rs ! k)) out"
      using quiet_facts(4) [OF inv q k] by blast
    then have "heap t ! promise (rs ! k) = Settled (Rejected e')"
      using mapped_rejected [of "listener (rs ! k)" out e'] by simp
    then show ?thesis using k(1) tr by blast
  qed
qed

lemma fanout_two:
  "emit (triggerSync 0 gated_class) gated_class [VNum 1] (two_listeners\<lparr>dispatchPromises := []\<rparr>)
     = Some (fanout two_listeners)"
proof -
  have "map_option trace (emit (triggerSync 0 gated_class) gated_class [VNum 1] (two_listeners\<lparr>dispatchPromises := []\<rparr>))
     = Some [Invoked 0, Called 0 VPublisher [VNum 1], CanHandlePromiseQueried,
             Invoked 1, Called 1 VPublisher [VNum 1], CanHandlePromiseQueried]"
    by code_simp
  then show ?thesis unfolding fanout_def by (rule Some_the)
qed

lemma fanout_tracked:
  "emit (triggerSync 0 gated_class) gated_class [VNum 1] (tracked_once\<lparr>dispatchPromises := []\<rparr>)
     = Some (fanout tracked_once)"
proof -
  have "map_option (\<lambda>s. length (trace s))
      (emit (triggerSync 0 gated_class) gated_class [VNum 1] (tracked_once\<lparr>dispatchPromises := []\<rparr>))
     = Some 12"
    by code_simp
  then show ?thesis unfolding fanout_def by (rule Some_the)
qed

section \<open>Resolution of a cycle\<close>

text \<open>
  C1. In a cycle whose fan-out ends with exactly one dispatch record, \<^verbatim>\<open>triggerSync\<close>
  returns, and the record's promise \<open>p\<close> itself gets the continuation of
  \<^verbatim>\<open>resolve\<close>: one promise is created (the one \<^verbatim>\<open>then\<close> returns), no
  \<^verbatim>\<open>{listener, value}\<close> mapping and no aggregate. When \<open>p\<close> is then fulfilled with
  \<open>V\<close> and the jobs run, the completed child is triggered with \<open>V\<close> itself; when
  nothing else was attached to \<open>p\<close> and no job was waiting, that is all the trace gains.
  The same when \<open>p\<close> was already fulfilled with \<open>V\<close> when the cycle ran.
\<close>

theorem single_record_completed:
  assumes "truthy (shouldEmit P (emit_args P args))"
    and "emit (triggerSync n P) P (emit_args P args) (s\<lparr>dispatchPromises := []\<rparr>) = Some s1"
    and "dispatchPromises s1 = [r]"
    and "promise r < length (heap s1)"
  shows "\<exists>s2. triggerSync (Suc n) P args s = Some s2
     \<and> length (heap s2) = Suc (length (heap s1)) \<and> slots s2 = slots s1
     \<and> (\<forall>rs. heap s1 ! promise r = Pending rs \<longrightarrow>
           heap s2 ! promise r = Pending (rs @ [ToChildren (length (heap s1))])
           \<and> (\<exists>pre post. trace (drain (settle (promise r) (Fulfilled V) s2))
                  = trace s1 @ pre @ [Triggered Completed V] @ post))
     \<and> (heap s1 ! promise r = Pending [] \<and> jobs s1 = [] \<longrightarrow>
           trace (drain (settle (promise r) (Fulfilled V) s2)) = trace s1 @ [Triggered Completed V])
     \<and> (heap s1 ! promise r = Settled (Fulfilled V) \<longrightarrow>
           (\<exists>pre post. trace (drain s2) = trace s1 @ pre @ [Triggered Completed V] @ post))"
proof -
  define s2 where "s2 = snd (handleDispatchPromises s1)"
  have run: "triggerSync (Suc n) P args s = Some s2"
    using assms(1,2) by (simp add: triggerSync_body_def s2_def)
  have shape: "length (heap s2) = Suc (length (heap s1)) \<and> slots s2 = slots s1"
    using assms(3,4) by (simp add: s2_def handle_single attach_def split: pstate.splits)
  have pend: "heap s2 ! promise r = Pending (rs @ [ToChildren (length (heap s1))])"
    if "heap s1 ! promise r = Pending rs" for rs
    using assms(4) by (simp add: s2_def single_pending [OF assms(3,4) that])
  have later: "\<exists>pre post. trace (drain (settle (promise r) (Fulfilled V) s2))
                  = trace s1 @ pre @ [Triggered Completed V] @ post"
    if "heap s1 ! promise r = Pending rs" for rs
    using single_later [OF assms(3,4) that, of "Fulfilled V"] by (simp add: s2_def)
  have quiet: "trace (drain (settle (promise r) (Fulfilled V) s2)) = trace s1 @ [Triggered Completed V]"
    if "heap s1 ! promise r = Pending []" and "jobs s1 = []"
    using single_later_quiet [OF assms(3,4) that, of "Fulfilled V"] by (simp add: s2_def)
  have already: "\<exists>pre post. trace (drain s2) = trace s1 @ pre @ [Triggered Completed V] @ post"
    if "heap s1 ! promise r = Settled (Fulfilled V)"
    using single_already [OF assms(3,4) that] by (simp add: s2_def)
  show ?thesis using run shape pend later quiet already by blast
qed

theorem single_record_completed_witness:
  "truthy (shouldEmit gated_class (emit_args gated_class [VNum 1]))
   \<and> dispatchPromises (fanout one_listener) = [\<lparr>promise = 0, listener = User 0\<rparr>]
   \<and> heap (fanout one_listener) = [Pending []] \<and> jobs (fanout one_listener) = []
   \<and> (\<exists>s2. triggerSync (Suc 0) gated_class [VNum 1] one_listener = Some s2
        \<and> length (heap s2) = 2 \<and> heap s2 ! 0 = Pending [ToChildren 1]
        \<and> trace (drain (settle 0 (Fulfilled (VNum 5)) s2))
            = [Invoked 0, Called 0 VPublisher [VNum 1], CanHandlePromiseQueried, Triggered Completed (VNum 5)])
   \<and> dispatchPromises (fanout settled_listener) = [\<lparr>promise = 0, listener = User 0\<rparr>]
   \<and> heap (fanout settled_listener) = [Settled (Fulfilled (VNum 5))]
   \<and> (\<exists>s2 pre post. triggerSync (Suc 0) gated_class [VNum 1] settled_listener = Some s2
        \<and> trace (drain s2) = trace (fanout settled_listener) @ pre @ [Triggered Completed (VNum 5)] @ post)"
proof -
  have h1: "truthy (shouldEmit gated_class (emit_args gated_class [VNum 1]))"
    by (simp add: gated_class_def emit_args_def)
  have a: "emit_args gated_class [VNum 1] = [VNum 1]"
    by (simp add: gated_class_def emit_args_def)
  have h1': "truthy (shouldEmit gated_class [VNum 1])"
    by (simp add: gated_class_def)
  have h3: "dispatchPromises (fanout one_listener) = [\<lparr>promise = 0, listener = User 0\<rparr>]"
    by code_simp
  have h4: "promise \<lparr>promise = 0, listener = User 0\<rparr> < length (heap (fanout one_listener))"
    by code_simp
  have h5: "heap (fanout one_listener) = [Pending []]" and h6: "jobs (fanout one_listener) = []"
    by code_simp+
  have tr: "trace (fanout one_listener) = [Invoked 0, Called 0 VPublisher [VNum 1], CanHandlePromiseQueried]"
    by code_simp
  have k3: "dispatchPromises (fanout settled_listener) = [\<lparr>promise = 0, listener = User 0\<rparr>]"
    by code_simp
  have k4: "promise \<lparr>promise = 0, listener = User 0\<rparr> < length (heap (fanout settled_listener))"
    by code_simp
  have k5: "heap (fanout settled_listener) = [Settled (Fulfilled (VNum 5))]"
    by code_simp
  note T1 = single_record_completed [of gated_class "[VNum 1]" 0 one_listener "fanout one_listener" _ "VNum 5",
        unfolded a, OF h1' fanout_one h3 h4]
  then obtain s2 where r: "triggerSync (Suc 0) gated_class [VNum 1] one_listener = Some s2"
    and len: "length (heap s2) = Suc (length (heap (fanout one_listener)))"
    and p: "\<forall>rs. heap (fanout one_listener) ! 0 = Pending rs \<longrightarrow>
              heap s2 ! 0 = Pending (rs @ [ToChildren (length (heap (fanout one_listener)))])"
    and q: "heap (fanout one_listener) ! 0 = Pending [] \<and> jobs (fanout one_listener) = [] \<longrightarrow>
              trace (drain (settle 0 (Fulfilled (VNum 5)) s2))
                = trace (fanout one_listener) @ [Triggered Completed (VNum 5)]"
    by auto
  have one: "\<exists>s2. triggerSync (Suc 0) gated_class [VNum 1] one_listener = Some s2
        \<and> length (heap s2) = 2 \<and> heap s2 ! 0 = Pending [ToChildren 1]
        \<and> trace (drain (settle 0 (Fulfilled (VNum 5)) s2))
            = [Invoked 0, Called 0 VPublisher [VNum 1], CanHandlePromiseQueried, Triggered Completed (VNum 5)]"
    using r len p q by (simp add: h5 h6 tr)
  note T2 = single_record_completed [of gated_class "[VNum 1]" 0 settled_listener "fanout settled_listener" _ "VNum 5",
        unfolded a, OF h1' fanout_settled k3 k4]
  then obtain s2' where r': "triggerSync (Suc 0) gated_class [VNum 1] settled_listener = Some s2'"
    and q': "heap (fanout settled_listener) ! 0 = Settled (Fulfilled (VNum 5)) \<longrightarrow>
              (\<exists>pre post. trace (drain s2')
                = trace (fanout settled_listener) @ pre @ [Triggered Completed (VNum 5)] @ post)"
    by auto
  have two: "\<exists>s2 pre post. triggerSync (Suc 0) gated_class [VNum 1] settled_listener = Some s2
        \<and> trace (drain s2) = trace (fanout settled_listener) @ pre @ [Triggered Completed (VNum 5)] @ post"
    using r' q' by (simp add: k5)
  show ?thesis using h1 h3 h5 h6 one k3 k5 two by blast
qed

text \<open>
  C2, as amended. Take any cycle whose fan-out ends with two or more dispatch records
  \<open>rs\<close>, whatever is attached to the promises of the records or queued, by other cycles
  or by other code. The state is closed, as \<open>init\<close> is and as every state is that an
  operation reaches from a closed one (\<open>closed_init\<close>, \<open>exec_closed\<close>): no reaction
  settles a promise that does not exist yet. \<^verbatim>\<open>triggerSync\<close> returns without triggering
  a child; \<open>d\<close>, the promise after the mapped promises and the aggregate, is the one
  \<^verbatim>\<open>resolve\<close> returns for this cycle. Afterwards the promises that exist are settled
  and the jobs run, in any order. Every event the trace gains is the triggering of a child
  by a job that ran, and those of this cycle's continuation are \<open>triggered d\<close>; when
  nothing else was attached or queued, they are all the trace gains. Whenever all queued
  jobs have run,
  \<^item> if every record's promise is fulfilled, record \<open>i\<close> with \<open>V i\<close>, the cycle has
    triggered the completed child once, with the entries \<^verbatim>\<open>{listener, value}\<close> of all
    records in record order, and no other child;
  \<^item> if none has failed and one is still pending, the cycle has triggered no child;
  \<^item> if one has failed, the cycle has triggered the failed child once, with the error of a
    failed record, and no other child, whether or not the other promises have settled.
\<close>

theorem many_records_aggregate:
  assumes "truthy (shouldEmit P (emit_args P args))"
    and "emit (triggerSync n P) P (emit_args P args) (s\<lparr>dispatchPromises := []\<rparr>) = Some s1"
    and "dispatchPromises s1 = rs" and "2 \<le> length rs"
    and "\<forall>r\<in>set rs. promise r < length (heap s1)"
    and "closed s"
  shows "\<exists>s2. triggerSync (Suc n) P args s = Some s2 \<and> trace s2 = trace s1
     \<and> fst (handleDispatchPromises s1) = VPromise (length (heap s1) + length rs + 1)
     \<and> (\<forall>evs. list_all (is_old (length (heap s1))) evs \<longrightarrow>
          trace (later evs s2) = trace s1 @ concat (map job_events (ran evs s2))
        \<and> (jobs s1 = [] \<and> (\<forall>c\<in>set (heap s1). \<forall>qs. c = Pending qs \<longrightarrow> qs = []) \<longrightarrow>
             trace (later evs s2) = trace s1 @ triggered (length (heap s1) + length rs + 1) (ran evs s2))
        \<and> (jobs (later evs s2) = [] \<longrightarrow>
             ((\<forall>i<length rs. heap (later evs s2) ! promise (rs ! i) = Settled (Fulfilled (V i)))
                \<longrightarrow> triggered (length (heap s1) + length rs + 1) (ran evs s2)
                      = [Triggered Completed (entries rs V)])
           \<and> ((\<forall>i<length rs. \<forall>e. heap (later evs s2) ! promise (rs ! i) \<noteq> Settled (Rejected e))
                \<and> (\<exists>i<length rs. \<exists>qs. heap (later evs s2) ! promise (rs ! i) = Pending qs)
                \<longrightarrow> triggered (length (heap s1) + length rs + 1) (ran evs s2) = [])
           \<and> ((\<exists>i<length rs. \<exists>e. heap (later evs s2) ! promise (rs ! i) = Settled (Rejected e))
                \<longrightarrow> (\<exists>k<length rs. \<exists>e. heap (later evs s2) ! promise (rs ! k) = Settled (Rejected e)
                       \<and> triggered (length (heap s1) + length rs + 1) (ran evs s2)
                           = [Triggered Failed e]))))"
proof -
  define s2 where "s2 = snd (handleDispatchPromises s1)"
  define N where "N = length (heap s1)"
  define d where "d = N + length rs + 1"
  have run: "triggerSync (Suc n) P args s = Some s2"
    using assms(1,2) by (simp add: triggerSync_body_def s2_def)
  have "closed (s\<lparr>dispatchPromises := []\<rparr>)" using assms(6) by (simp add: closed_def)
  with triggerSync_keeps_closed have cl: "closed s1" using assms(2) by (rule emit_closed)
  note H = handle_many_inv [OF assms(3,4,5) cl, folded s2_def N_def, folded d_def]
  have inv: "cycle_inv rs N [] s2" and 1: "trace s2 = trace s1"
    and 2: "fst (handleDispatchPromises s1) = VPromise d"
    and al: "jobs s1 = [] \<and> (\<forall>c\<in>set (heap s1). \<forall>qs. c = Pending qs \<longrightarrow> qs = []) \<longrightarrow> alone N [] s2"
    using H by blast+
  have 3: "trace (later evs s2) = trace s1 @ concat (map job_events (ran evs s2))" for evs
    by (simp add: later_trace 1)
  have I: "cycle_inv rs N (ran evs s2) (later evs s2)" if "list_all (is_old N) evs" for evs
    using later_inv [OF inv that] by simp
  have 4: "trace (later evs s2) = trace s1 @ triggered d (ran evs s2)"
    if "list_all (is_old N) evs" "jobs s1 = []" "\<forall>c\<in>set (heap s1). \<forall>qs. c = Pending qs \<longrightarrow> qs = []" for evs
  proof -
    have "alone N [] s2" using al that(2,3) by blast
    then have "alone N (ran evs s2) (later evs s2)" using later_alone [of N "[]" s2 evs] by simp
    then show ?thesis using alone_events [OF I [OF that(1)]] 3 by (simp add: d_def)
  qed
  have 5: "triggered d (ran evs s2) = [Triggered Completed (entries rs V)]"
    if "list_all (is_old N) evs" "jobs (later evs s2) = []"
      "\<forall>i<length rs. heap (later evs s2) ! promise (rs ! i) = Settled (Fulfilled (V i))" for evs
    unfolding d_def using I [OF that(1)] that(2,3) by (rule quiet_completed)
  have 6: "triggered d (ran evs s2) = []"
    if "list_all (is_old N) evs" "jobs (later evs s2) = []"
      "\<forall>i<length rs. \<forall>e. heap (later evs s2) ! promise (rs ! i) \<noteq> Settled (Rejected e)"
      "\<exists>i<length rs. \<exists>qs. heap (later evs s2) ! promise (rs ! i) = Pending qs" for evs
    unfolding d_def using quiet_waiting [OF I [OF that(1)] that(2,3)] that(4) by blast
  have 7: "\<exists>k<length rs. \<exists>e. heap (later evs s2) ! promise (rs ! k) = Settled (Rejected e)
                    \<and> triggered d (ran evs s2) = [Triggered Failed e]"
    if "list_all (is_old N) evs" "jobs (later evs s2) = []"
      "\<exists>i<length rs. \<exists>e. heap (later evs s2) ! promise (rs ! i) = Settled (Rejected e)" for evs
    unfolding d_def using quiet_failed [OF I [OF that(1)] that(2)] that(3) by blast
  show ?thesis
    unfolding N_def [symmetric] d_def [symmetric]
    using run 1 2 3 4 5 6 7 by blast
qed

theorem many_records_aggregate_witness:
  "truthy (shouldEmit gated_class (emit_args gated_class [VNum 1]))
   \<and> closed two_listeners
   \<and> dispatchPromises (fanout two_listeners) = two_records \<and> 2 \<le> length two_records
   \<and> jobs (fanout two_listeners) = [] \<and> heap (fanout two_listeners) = [Pending [], Pending []]
   \<and> (\<exists>s2. triggerSync (Suc 0) gated_class [VNum 1] two_listeners = Some s2
        \<and> trace (later [Settles 1 (Fulfilled (VNum 6)), RunsJobs, Settles 0 (Fulfilled (VNum 5)), RunsJobs] s2)
            = trace (fanout two_listeners)
                @ [Triggered Completed (VArr [VEntry (User 0) (VNum 5), VEntry (User 1) (VNum 6)])]
        \<and> trace (later [RunsJobs, Settles 1 (Fulfilled (VNum 6)), RunsJobs] s2) = trace (fanout two_listeners)
        \<and> trace (later [Settles 1 (Rejected (VStr ''E'')), RunsJobs] s2)
            = trace (fanout two_listeners) @ [Triggered Failed (VStr ''E'')])
   \<and> closed tracked_once
   \<and> dispatchPromises (fanout tracked_once) = two_records
   \<and> heap (fanout tracked_once)
       = [Pending [ToEntry (User 0) 2], Pending [ToEntry (User 1) 3], Pending [ToAll 4 0],
          Pending [ToAll 4 1], Pending [ToChildren 5], Pending []]
   \<and> (\<exists>s2. triggerSync (Suc 0) gated_class [VNum 1] tracked_once = Some s2
        \<and> triggered 9 (ran [Settles 1 (Fulfilled (VNum 6)), Settles 0 (Fulfilled (VNum 5)), RunsJobs] s2)
            = [Triggered Completed (VArr [VEntry (User 0) (VNum 5), VEntry (User 1) (VNum 6)])])"
proof -
  define r where "r = the (triggerSync (Suc 0) gated_class [VNum 1] two_listeners)"
  define r2 where "r2 = the (triggerSync (Suc 0) gated_class [VNum 1] tracked_once)"
  define ok where "ok = [Settles 1 (Fulfilled (VNum 6)), RunsJobs, Settles 0 (Fulfilled (VNum 5)), RunsJobs]"
  define part where "part = [RunsJobs, Settles 1 (Fulfilled (VNum 6)), RunsJobs]"
  define bad where "bad = [Settles 1 (Rejected (VStr ''E'')), RunsJobs]"
  define both where "both = [Settles 1 (Fulfilled (VNum 6)), Settles 0 (Fulfilled (VNum 5)), RunsJobs]"
  have h1: "truthy (shouldEmit gated_class (emit_args gated_class [VNum 1]))"
    by (simp add: gated_class_def emit_args_def)
  have a: "emit_args gated_class [VNum 1] = [VNum 1]"
    by (simp add: gated_class_def emit_args_def)
  have h1': "truthy (shouldEmit gated_class [VNum 1])"
    by (simp add: gated_class_def)
  have h3: "dispatchPromises (fanout two_listeners) = two_records" by code_simp
  have h4: "2 \<le> length two_records" by (simp add: two_records_def)
  have h5: "jobs (fanout two_listeners) = []" by code_simp
  have hp: "heap (fanout two_listeners) = [Pending [], Pending []]" by code_simp
  have h6: "\<forall>r\<in>set two_records. promise r < length (heap (fanout two_listeners))"
    by (simp add: hp two_records_def)
  have h7: "closed two_listeners" by code_simp
  have h8: "\<forall>c\<in>set (heap (fanout two_listeners)). \<forall>qs. c = Pending qs \<longrightarrow> qs = []"
    by (simp add: hp)
  have "(\<lambda>x. (dispatchPromises x, heap x)) (fanout tracked_once)
       = (two_records, [Pending [ToEntry (User 0) 2], Pending [ToEntry (User 1) 3], Pending [ToAll 4 0],
          Pending [ToAll 4 1], Pending [ToChildren 5], Pending []])" by code_simp
  then have g3: "dispatchPromises (fanout tracked_once) = two_records"
    and gp: "heap (fanout tracked_once)
       = [Pending [ToEntry (User 0) 2], Pending [ToEntry (User 1) 3], Pending [ToAll 4 0],
          Pending [ToAll 4 1], Pending [ToChildren 5], Pending []]" by simp_all
  have g6: "\<forall>r\<in>set two_records. promise r < length (heap (fanout tracked_once))"
    by (simp add: gp two_records_def)
  have g7: "closed tracked_once" by code_simp
  have len: "length two_records = 2" by (simp add: two_records_def)
  have p0: "promise (two_records ! 0) = 0" and p1: "promise (two_records ! Suc 0) = Suc 0"
    by (simp_all add: two_records_def)
  have e: "entries two_records two_values = VArr [VEntry (User 0) (VNum 5), VEntry (User 1) (VNum 6)]"
    by (simp add: entries_def two_records_def two_values_def upt_rec)
  have on: "list_all (is_old 2) ok" "list_all (is_old 2) part" "list_all (is_old 2) bad"
    "list_all (is_old 6) both"
    by (simp_all add: ok_def part_def bad_def both_def)
  have q: "jobs (later ok r) = []" "jobs (later part r) = []" "jobs (later bad r) = []"
    unfolding ok_def part_def bad_def r_def by code_simp+
  have "(\<lambda>x. (jobs x, heap x ! 0, heap x ! Suc 0)) (later both r2)
      = ([], Settled (Fulfilled (VNum 5)), Settled (Fulfilled (VNum 6)))"
    unfolding both_def r2_def by code_simp
  then have q2: "jobs (later both r2) = []"
    and c_both: "heap (later both r2) ! 0 = Settled (Fulfilled (VNum 5))"
      "heap (later both r2) ! Suc 0 = Settled (Fulfilled (VNum 6))" by simp_all
  have c_ok: "heap (later ok r) ! 0 = Settled (Fulfilled (VNum 5))"
    "heap (later ok r) ! Suc 0 = Settled (Fulfilled (VNum 6))"
    unfolding ok_def r_def by code_simp+
  have c_part: "heap (later part r) ! 0 = Pending [ToEntry (User 0) 2]"
    "heap (later part r) ! Suc 0 = Settled (Fulfilled (VNum 6))"
    unfolding part_def r_def by code_simp+
  have c_bad: "heap (later bad r) ! 0 = Pending [ToEntry (User 0) 2]"
    "heap (later bad r) ! Suc 0 = Settled (Rejected (VStr ''E''))"
    unfolding bad_def r_def by code_simp+
  have two: "(\<forall>i<2. Q i) \<longleftrightarrow> Q 0 \<and> Q (Suc 0)" for Q
    by (auto simp: less_Suc_eq numeral_2_eq_2)
  have two': "(\<exists>i<2. Q i) \<longleftrightarrow> Q 0 \<or> Q (Suc 0)" for Q
    by (auto simp: less_Suc_eq numeral_2_eq_2)
  note T = many_records_aggregate [of gated_class "[VNum 1]" 0 two_listeners "fanout two_listeners"
        two_records two_values, unfolded a, OF h1' fanout_two h3 h4 h6 h7]
  then obtain s2 where run: "triggerSync (Suc 0) gated_class [VNum 1] two_listeners = Some s2"
    and B: "\<forall>evs. list_all (is_old (length (heap (fanout two_listeners)))) evs \<longrightarrow>
          trace (later evs s2) = trace (fanout two_listeners) @ concat (map job_events (ran evs s2))
        \<and> (jobs (fanout two_listeners) = [] \<and> (\<forall>c\<in>set (heap (fanout two_listeners)). \<forall>qs. c = Pending qs \<longrightarrow> qs = []) \<longrightarrow>
             trace (later evs s2) = trace (fanout two_listeners)
                @ triggered (length (heap (fanout two_listeners)) + length two_records + 1) (ran evs s2))
        \<and> (jobs (later evs s2) = [] \<longrightarrow>
             ((\<forall>i<length two_records. heap (later evs s2) ! promise (two_records ! i) = Settled (Fulfilled (two_values i)))
                \<longrightarrow> triggered (length (heap (fanout two_listeners)) + length two_records + 1) (ran evs s2)
                      = [Triggered Completed (entries two_records two_values)])
           \<and> ((\<forall>i<length two_records. \<forall>e. heap (later evs s2) ! promise (two_records ! i) \<noteq> Settled (Rejected e))
                \<and> (\<exists>i<length two_records. \<exists>qs. heap (later evs s2) ! promise (two_records ! i) = Pending qs)
                \<longrightarrow> triggered (length (heap (fanout two_listeners)) + length two_records + 1) (ran evs s2) = [])
           \<and> ((\<exists>i<length two_records. \<exists>e. heap (later evs s2) ! promise (two_records ! i) = Settled (Rejected e))
                \<longrightarrow> (\<exists>k<length two_records. \<exists>e. heap (later evs s2) ! promise (two_records ! k) = Settled (Rejected e)
                       \<and> triggered (length (heap (fanout two_listeners)) + length two_records + 1) (ran evs s2)
                           = [Triggered Failed e])))"
    by (elim exE conjE)
  note rest = B [rule_format, THEN conjunct2]
  have rs: "r = s2" using run by (simp add: r_def)
  have l2: "length (heap (fanout two_listeners)) = 2" by (simp add: hp)
  have tr: "trace (later evs s2) = trace (fanout two_listeners) @ triggered 5 (ran evs s2)"
    if "list_all (is_old 2) evs" for evs
    using rest [of evs] that h5 h8 by (simp add: l2 len)
  have t1: "triggered 5 (ran ok s2) = [Triggered Completed (VArr [VEntry (User 0) (VNum 5), VEntry (User 1) (VNum 6)])]"
    using rest [of ok] on(1) q(1) c_ok
    by (simp add: rs [symmetric] l2 len two p0 p1 two_values_def e)
  have t2: "triggered 5 (ran part s2) = []"
    using rest [of part] on(2) q(2) c_part
    by (simp add: rs [symmetric] l2 len two two' p0 p1)
  have "\<exists>k<length two_records. \<exists>e. heap (later bad s2) ! promise (two_records ! k) = Settled (Rejected e)
                    \<and> triggered 5 (ran bad s2) = [Triggered Failed e]"
    using rest [of bad] on(3) q(3) c_bad
    by (simp add: rs [symmetric] l2 len two' p0 p1)
  then have t3: "triggered 5 (ran bad s2) = [Triggered Failed (VStr ''E'')]"
    using c_bad by (auto simp: rs [symmetric] len two' p0 p1)
  have o1: "trace (later ok s2) = trace (fanout two_listeners)
                @ [Triggered Completed (VArr [VEntry (User 0) (VNum 5), VEntry (User 1) (VNum 6)])]"
    using tr [OF on(1)] t1 by simp
  have o2: "trace (later part s2) = trace (fanout two_listeners)"
    using tr [OF on(2)] t2 by simp
  have o3: "trace (later bad s2) = trace (fanout two_listeners) @ [Triggered Failed (VStr ''E'')]"
    using tr [OF on(3)] t3 by simp
  note U = many_records_aggregate [of gated_class "[VNum 1]" 0 tracked_once "fanout tracked_once"
        two_records two_values, unfolded a, OF h1' fanout_tracked g3 h4 g6 g7]
  then obtain s3 where run3: "triggerSync (Suc 0) gated_class [VNum 1] tracked_once = Some s3"
    and B3: "\<forall>evs. list_all (is_old (length (heap (fanout tracked_once)))) evs \<longrightarrow>
          trace (later evs s3) = trace (fanout tracked_once) @ concat (map job_events (ran evs s3))
        \<and> (jobs (fanout tracked_once) = [] \<and> (\<forall>c\<in>set (heap (fanout tracked_once)). \<forall>qs. c = Pending qs \<longrightarrow> qs = []) \<longrightarrow>
             trace (later evs s3) = trace (fanout tracked_once)
                @ triggered (length (heap (fanout tracked_once)) + length two_records + 1) (ran evs s3))
        \<and> (jobs (later evs s3) = [] \<longrightarrow>
             ((\<forall>i<length two_records. heap (later evs s3) ! promise (two_records ! i) = Settled (Fulfilled (two_values i)))
                \<longrightarrow> triggered (length (heap (fanout tracked_once)) + length two_records + 1) (ran evs s3)
                      = [Triggered Completed (entries two_records two_values)])
           \<and> ((\<forall>i<length two_records. \<forall>e. heap (later evs s3) ! promise (two_records ! i) \<noteq> Settled (Rejected e))
                \<and> (\<exists>i<length two_records. \<exists>qs. heap (later evs s3) ! promise (two_records ! i) = Pending qs)
                \<longrightarrow> triggered (length (heap (fanout tracked_once)) + length two_records + 1) (ran evs s3) = [])
           \<and> ((\<exists>i<length two_records. \<exists>e. heap (later evs s3) ! promise (two_records ! i) = Settled (Rejected e))
                \<longrightarrow> (\<exists>k<length two_records. \<exists>e. heap (later evs s3) ! promise (two_records ! k) = Settled (Rejected e)
                       \<and> triggered (length (heap (fanout tracked_once)) + length two_records + 1) (ran evs s3)
                           = [Triggered Failed e])))"
    by (elim exE conjE)
  note rest3 = B3 [rule_format, THEN conjunct2, THEN conjunct2]
  have rs3: "r2 = s3" using run3 by (simp add: r2_def)
  have l6: "length (heap (fanout tracked_once)) = 6" by (simp add: gp)
  have u1: "triggered 9 (ran both s3) = [Triggered Completed (VArr [VEntry (User 0) (VNum 5), VEntry (User 1) (VNum 6)])]"
    using rest3 [of both] on(4) q2 c_both
    by (simp add: rs3 [symmetric] l6 len two p0 p1 two_values_def e)
  show ?thesis
    using h1 h7 h3 h4 h5 hp run o1 o2 o3 g7 g3 gp run3 u1
    unfolding ok_def part_def bad_def both_def by blast
qed

text \<open>
  C2 as stated fails where it says that the aggregate settles only when every individual
  result has settled: in the cycle of two records below, the second promise fails while
  the first is still pending, and the aggregate (promise \<open>4\<close>) is settled and the failed
  child triggered at once.
\<close>

theorem many_records_aggregate_counterexample:
  "map_option (\<lambda>s. let s' = drain (settle 1 (Rejected (VStr ''E'')) s) in (heap s' ! 0, heap s' ! 4, trace s'))
      (triggerSync (Suc 0) gated_class [VNum 1] two_listeners)
    = Some (Pending [ToEntry (User 0) 2], Settled (Rejected (VStr ''E'')),
            [Invoked 0, Called 0 VPublisher [VNum 1], CanHandlePromiseQueried,
             Invoked 1, Called 1 VPublisher [VNum 1], CanHandlePromiseQueried,
             Triggered Failed (VStr ''E'')])"
  by code_simp

text \<open>
  C3. In a cycle whose fan-out ends with exactly one dispatch record,
  \<^verbatim>\<open>triggerSync\<close> returns; when the record's promise then fails with \<open>E\<close> and the
  jobs run, the failed child is triggered with \<open>E\<close> by the failure continuation of
  \<^verbatim>\<open>resolve\<close>, and the run of the jobs ends; when nothing else was attached to the
  promise and no job was waiting, that is all the trace gains. The same when the promise
  had already failed with \<open>E\<close> when the cycle ran: the cycle still returns.
\<close>

theorem single_record_failed:
  assumes "truthy (shouldEmit P (emit_args P args))"
    and "emit (triggerSync n P) P (emit_args P args) (s\<lparr>dispatchPromises := []\<rparr>) = Some s1"
    and "dispatchPromises s1 = [r]"
    and "promise r < length (heap s1)"
  shows "\<exists>s2. triggerSync (Suc n) P args s = Some s2
     \<and> (\<forall>rs. heap s1 ! promise r = Pending rs \<longrightarrow>
           trace s2 = trace s1
           \<and> (\<exists>pre post. trace (drain (settle (promise r) (Rejected E) s2))
                  = trace s1 @ pre @ [Triggered Failed E] @ post))
     \<and> (heap s1 ! promise r = Pending [] \<and> jobs s1 = [] \<longrightarrow>
           trace (drain (settle (promise r) (Rejected E) s2)) = trace s1 @ [Triggered Failed E])
     \<and> (heap s1 ! promise r = Settled (Rejected E) \<longrightarrow>
           trace s2 = trace s1
           \<and> (\<exists>pre post. trace (drain s2) = trace s1 @ pre @ [Triggered Failed E] @ post))"
proof -
  define s2 where "s2 = snd (handleDispatchPromises s1)"
  have run: "triggerSync (Suc n) P args s = Some s2"
    using assms(1,2) by (simp add: triggerSync_body_def s2_def)
  have same: "trace s2 = trace s1"
    using assms(3,4) by (simp add: s2_def handle_single attach_def split: pstate.splits)
  have later: "\<exists>pre post. trace (drain (settle (promise r) (Rejected E) s2))
                  = trace s1 @ pre @ [Triggered Failed E] @ post"
    if "heap s1 ! promise r = Pending rs" for rs
    using single_later [OF assms(3,4) that, of "Rejected E"] by (simp add: s2_def)
  have quiet: "trace (drain (settle (promise r) (Rejected E) s2)) = trace s1 @ [Triggered Failed E]"
    if "heap s1 ! promise r = Pending []" and "jobs s1 = []"
    using single_later_quiet [OF assms(3,4) that, of "Rejected E"] by (simp add: s2_def)
  have already: "\<exists>pre post. trace (drain s2) = trace s1 @ pre @ [Triggered Failed E] @ post"
    if "heap s1 ! promise r = Settled (Rejected E)"
    using single_already [OF assms(3,4) that] by (simp add: s2_def)
  show ?thesis using run same later quiet already by blast
qed

theorem single_record_failed_witness:
  "truthy (shouldEmit gated_class (emit_args gated_class [VNum 1]))
   \<and> dispatchPromises (fanout one_listener) = [\<lparr>promise = 0, listener = User 0\<rparr>]
   \<and> heap (fanout one_listener) = [Pending []] \<and> jobs (fanout one_listener) = []
   \<and> (\<exists>s2. triggerSync (Suc 0) gated_class [VNum 1] one_listener = Some s2
        \<and> trace (drain (settle 0 (Rejected (VStr ''E'')) s2))
            = [Invoked 0, Called 0 VPublisher [VNum 1], CanHandlePromiseQueried, Triggered Failed (VStr ''E'')])
   \<and> dispatchPromises (fanout rejected_listener) = [\<lparr>promise = 0, listener = User 0\<rparr>]
   \<and> heap (fanout rejected_listener) = [Settled (Rejected (VStr ''E''))]
   \<and> (\<exists>s2 pre post. triggerSync (Suc 0) gated_class [VNum 1] rejected_listener = Some s2
        \<and> trace s2 = trace (fanout rejected_listener)
        \<and> trace (drain s2) = trace (fanout rejected_listener) @ pre @ [Triggered Failed (VStr ''E'')] @ post)"
proof -
  have h1: "truthy (shouldEmit gated_class (emit_args gated_class [VNum 1]))"
    by (simp add: gated_class_def emit_args_def)
  have a: "emit_args gated_class [VNum 1] = [VNum 1]"
    by (simp add: gated_class_def emit_args_def)
  have h1': "truthy (shouldEmit gated_class [VNum 1])"
    by (simp add: gated_class_def)
  have h3: "dispatchPromises (fanout one_listener) = [\<lparr>promise = 0, listener = User 0\<rparr>]"
    by code_simp
  have h4: "promise \<lparr>promise = 0, listener = User 0\<rparr> < length (heap (fanout one_listener))"
    by code_simp
  have h5: "heap (fanout one_listener) = [Pending []]" and h6: "jobs (fanout one_listener) = []"
    by code_simp+
  have tr: "trace (fanout one_listener) = [Invoked 0, Called 0 VPublisher [VNum 1], CanHandlePromiseQueried]"
    by code_simp
  have k3: "dispatchPromises (fanout rejected_listener) = [\<lparr>promise = 0, listener = User 0\<rparr>]"
    by code_simp
  have k4: "promise \<lparr>promise = 0, listener = User 0\<rparr> < length (heap (fanout rejected_listener))"
    by code_simp
  have k5: "heap (fanout rejected_listener) = [Settled (Rejected (VStr ''E''))]"
    by code_simp
  note T1 = single_record_failed [of gated_class "[VNum 1]" 0 one_listener "fanout one_listener" _ "VStr ''E''",
        unfolded a, OF h1' fanout_one h3 h4]
  then obtain s2 where r: "triggerSync (Suc 0) gated_class [VNum 1] one_listener = Some s2"
    and q: "heap (fanout one_listener) ! 0 = Pending [] \<and> jobs (fanout one_listener) = [] \<longrightarrow>
              trace (drain (settle 0 (Rejected (VStr ''E'')) s2))
                = trace (fanout one_listener) @ [Triggered Failed (VStr ''E'')]"
    by auto
  have one: "\<exists>s2. triggerSync (Suc 0) gated_class [VNum 1] one_listener = Some s2
        \<and> trace (drain (settle 0 (Rejected (VStr ''E'')) s2))
            = [Invoked 0, Called 0 VPublisher [VNum 1], CanHandlePromiseQueried, Triggered Failed (VStr ''E'')]"
    using r q by (simp add: h5 h6 tr)
  note T2 = single_record_failed [of gated_class "[VNum 1]" 0 rejected_listener "fanout rejected_listener" _ "VStr ''E''",
        unfolded a, OF h1' fanout_rejected k3 k4]
  then obtain s2' where r': "triggerSync (Suc 0) gated_class [VNum 1] rejected_listener = Some s2'"
    and q': "heap (fanout rejected_listener) ! 0 = Settled (Rejected (VStr ''E'')) \<longrightarrow>
              trace s2' = trace (fanout rejected_listener)
              \<and> (\<exists>pre post. trace (drain s2')
                = trace (fanout rejected_listener) @ pre @ [Triggered Failed (VStr ''E'')] @ post)"
    by auto
  have two: "\<exists>s2 pre post. triggerSync (Suc 0) gated_class [VNum 1] rejected_listener = Some s2
        \<and> trace s2 = trace (fanout rejected_listener)
        \<and> trace (drain s2) = trace (fanout rejected_listener) @ pre @ [Triggered Failed (VStr ''E'')] @ post"
    using r' q' by (simp add: k5)
  show ?thesis using h1 h3 h5 h6 one k3 k5 two by blast
qed

section \<open>The hooks\<close>

text \<open>
  C4. When \<^verbatim>\<open>shouldEmit\<close>, evaluated on the arguments after \<^verbatim>\<open>preEmit\<close>, returns
  false (or any falsy value), \<^verbatim>\<open>triggerSync\<close> returns and leaves the whole state as it
  was: the trace gains no call of a listener and no triggering of a child publisher, no
  continuation is attached to any promise, and the list of dispatch records is what it
  was before, so empty if it was empty.
\<close>

theorem triggerSync_suppressed:
  assumes "\<not> truthy (shouldEmit P (emit_args P args))"
  shows "triggerSync (Suc n) P args s = Some s"
  using assms by (simp add: triggerSync_body_def)

theorem triggerSync_suppressed_witness:
  "\<not> truthy (shouldEmit gated_class (emit_args gated_class [VNum 0]))
   \<and> triggerSync (Suc 0) gated_class [VNum 0] one_listener = Some one_listener
   \<and> listeners one_listener = [0] \<and> \<not> aborted one_listener 0
   \<and> dispatchPromises one_listener = []
   \<and> map_option trace (triggerSync (Suc 0) gated_class [VNum 1] one_listener)
       = Some [Invoked 0, Called 0 VPublisher [VNum 1], CanHandlePromiseQueried]"
proof -
  have h: "\<not> truthy (shouldEmit gated_class (emit_args gated_class [VNum 0]))"
    by (simp add: gated_class_def emit_args_def)
  have l: "listeners one_listener = [0] \<and> \<not> aborted one_listener 0
           \<and> dispatchPromises one_listener = []"
    by code_simp
  have t: "map_option trace (triggerSync (Suc 0) gated_class [VNum 1] one_listener)
       = Some [Invoked 0, Called 0 VPublisher [VNum 1], CanHandlePromiseQueried]"
    by code_simp
  show ?thesis using h l t triggerSync_suppressed [OF h, of 0 one_listener] by simp
qed

section \<open>The list of dispatch records\<close>

text \<open>
  C5, as amended. A cycle that emits clears the list of dispatch records first: what the
  list held before has no influence on the cycle, and after the cycle the list is empty.
  \<^verbatim>\<open>_handleDispatchPromises\<close> reads the list and empties the field, and the rest of the
  resolution works on the list read: it neither reads nor writes the field. Settling a
  promise later and running the jobs leaves the list as it is, and from a state with an
  empty list every run of calls and settlements ends with an empty list: no record
  outlives its cycle.
\<close>

theorem dispatch_records_cleared:
  "(truthy (shouldEmit P (emit_args P args)) \<longrightarrow>
      triggerSync (Suc n) P args (s\<lparr>dispatchPromises := old\<rparr>) = triggerSync (Suc n) P args s
      \<and> (\<forall>s'. triggerSync (Suc n) P args s = Some s' \<longrightarrow> dispatchPromises s' = []))
   \<and> handleDispatchPromises s = resolve_records (dispatchPromises s) (s\<lparr>dispatchPromises := []\<rparr>)
   \<and> dispatchPromises (snd (handleDispatchPromises s)) = []
   \<and> resolve_records rs (s\<lparr>dispatchPromises := x\<rparr>)
       = (fst (resolve_records rs s), (snd (resolve_records rs s))\<lparr>dispatchPromises := x\<rparr>)
   \<and> dispatchPromises (drain (settle p out s)) = dispatchPromises s
   \<and> (dispatchPromises s = [] \<and> execs m P ops s = Some s'' \<longrightarrow> dispatchPromises s'' = [])"
proof -
  have 1: "triggerSync (Suc n) P args (s\<lparr>dispatchPromises := old\<rparr>) = triggerSync (Suc n) P args s"
    if "truthy (shouldEmit P (emit_args P args))"
    using that by (simp add: triggerSync_body_def emit_def)
  have 2: "dispatchPromises (drain (settle p out s)) = dispatchPromises s"
    using step_dispatch [OF drain_step [of "settle p out s"]] step_dispatch [OF settle_step [of s p out]]
    by simp
  show ?thesis
    using 1 2 triggerSync_dispatch [where P = P and args = args and n = n and s = s]
      handle_dispatch [of s] resolve_records_dp [where rs = rs and s = s and x = x]
      execs_dispatch [where n = m and P = P and xs = ops and s = s and s' = s'']
    by (simp add: handleDispatchPromises_def)
qed

theorem dispatch_records_cleared_witness:
  "truthy (shouldEmit gated_class (emit_args gated_class [VNum 1]))
   \<and> triggerSync (Suc 0) gated_class [VNum 1] two_listeners
        = Some (the (triggerSync (Suc 0) gated_class [VNum 1] two_listeners))
   \<and> dispatchPromises (the (triggerSync (Suc 0) gated_class [VNum 1] two_listeners)) = []
   \<and> heap (the (triggerSync (Suc 0) gated_class [VNum 1] two_listeners))
        = [Pending [ToEntry (User 0) 2], Pending [ToEntry (User 1) 3], Pending [ToAll 4 0],
           Pending [ToAll 4 1], Pending [ToChildren 5], Pending []]
   \<and> dispatchPromises two_listeners = []
   \<and> execs 1 gated_class busy_run two_listeners = Some (the (execs 1 gated_class busy_run two_listeners))
   \<and> dispatchPromises (the (execs 1 gated_class busy_run two_listeners)) = []"
proof -
  have h: "truthy (shouldEmit gated_class (emit_args gated_class [VNum 1]))"
    by (simp add: gated_class_def emit_args_def)
  have "map_option heap (triggerSync (Suc 0) gated_class [VNum 1] two_listeners)
        = Some [Pending [ToEntry (User 0) 2], Pending [ToEntry (User 1) 3], Pending [ToAll 4 0],
           Pending [ToAll 4 1], Pending [ToChildren 5], Pending []]"
    by code_simp
  then have r: "triggerSync (Suc 0) gated_class [VNum 1] two_listeners
        = Some (the (triggerSync (Suc 0) gated_class [VNum 1] two_listeners))"
    and hp: "heap (the (triggerSync (Suc 0) gated_class [VNum 1] two_listeners))
        = [Pending [ToEntry (User 0) 2], Pending [ToEntry (User 1) 3], Pending [ToAll 4 0],
           Pending [ToAll 4 1], Pending [ToChildren 5], Pending []]"
    by (auto dest: Some_the)
  have e: "dispatchPromises two_listeners = []" by code_simp
  have "map_option (\<lambda>s. length (trace s)) (execs 1 gated_class busy_run two_listeners) = Some 12"
    by code_simp
  then have x: "execs 1 gated_class busy_run two_listeners = Some (the (execs 1 gated_class busy_run two_listeners))"
    by (rule Some_the)
  show ?thesis
    using h r hp e x
      dispatch_records_cleared [where P = gated_class and args = "[VNum 1]" and n = 0 and s = two_listeners
        and m = 1 and ops = busy_run and s'' = "the (execs 1 gated_class busy_run two_listeners)"]
    by simp
qed

text \<open>
  C5 as stated fails where it says that a cycle started re-entrantly cannot corrupt the
  list the cycle before it has collected. In the fan-out of \<^verbatim>\<open>triggerSync(0)\<close> the
  first listener returns promise \<open>0\<close>, and its record is in the list; the second listener
  calls \<^verbatim>\<open>triggerSync(1)\<close>, which clears the list, and after its delivery the list of
  the outer cycle is empty. The outer cycle ends with no continuation on promise \<open>0\<close>:
  when the promise is fulfilled later, no child publisher is triggered.
\<close>

theorem dispatch_records_cleared_counterexample:
  "map_option dispatchPromises
      (deliver (eventHandler (triggerSync 1 reentrant_class) reentrant_class [VNum 0]) [0]
         (two_listeners\<lparr>dispatchPromises := []\<rparr>))
     = Some [\<lparr>promise = 0, listener = User 0\<rparr>]
   \<and> map_option dispatchPromises
      (deliver (eventHandler (triggerSync 1 reentrant_class) reentrant_class [VNum 0]) [0, 1]
         (two_listeners\<lparr>dispatchPromises := []\<rparr>))
     = Some []
   \<and> map_option (\<lambda>s. heap s ! 0) (triggerSync 2 reentrant_class [VNum 0] two_listeners) = Some (Pending [])
   \<and> map_option (\<lambda>s. trace (drain (settle 0 (Fulfilled (VNum 7)) s)))
        (triggerSync 2 reentrant_class [VNum 0] two_listeners)
     = Some [Invoked 0, Called 0 VPublisher [VNum 0], CanHandlePromiseQueried,
             Invoked 1, Called 1 VPublisher [VNum 0],
             Invoked 0, Called 0 VPublisher [VNum 1], CanHandlePromiseQueried,
             Invoked 1, Called 1 VPublisher [VNum 1]]"
  by code_simp

text \<open>
  C8. A cycle of \<^verbatim>\<open>triggerSync\<close> evaluates \<^verbatim>\<open>shouldEmit\<close> on, and fans out, the
  argument list the spec describes: the original arguments when \<^verbatim>\<open>preEmit\<close> returns
  undefined, the returned sequence as it is when it returns an \<^verbatim>\<open>arguments\<close> object
  or an array, and the one-element list of the returned value otherwise.
\<close>

theorem triggerSync_preEmit:
  "triggerSync (Suc n) P args s =
     (if truthy (shouldEmit P (spec_args (preEmit P args) args))
      then
        (case emit (triggerSync n P) P (spec_args (preEmit P args) args) (s\<lparr>dispatchPromises := []\<rparr>) of
           None \<Rightarrow> None
         | Some s1 \<Rightarrow> Some (snd (handleDispatchPromises s1)))
      else Some s)"
  by (simp add: triggerSync_body_def emit_args_spec)

theorem triggerSync_preEmit_witness:
  "map_option trace (triggerSync (Suc 0) rewriting_class [VNum 0] one_listener)
     = Some [Invoked 0, Called 0 VPublisher [VNum 0]]
   \<and> map_option trace (triggerSync (Suc 0) rewriting_class [VNum 1] one_listener)
     = Some [Invoked 0, Called 0 VPublisher [VNum 10, VNum 11]]
   \<and> map_option trace (triggerSync (Suc 0) rewriting_class [VNum 2] one_listener)
     = Some [Invoked 0, Called 0 VPublisher [VNum 20, VNum 21]]
   \<and> map_option trace (triggerSync (Suc 0) rewriting_class [VNum 3] one_listener)
     = Some [Invoked 0, Called 0 VPublisher [VNum 30]]
   \<and> spec_args (preEmit rewriting_class [VNum 2]) [VNum 2] = [VNum 20, VNum 21]
   \<and> triggerSync (Suc 0) rewriting_class [VNum 2] one_listener =
       (case emit (triggerSync 0 rewriting_class) rewriting_class [VNum 20, VNum 21]
               (one_listener\<lparr>dispatchPromises := []\<rparr>) of
           None \<Rightarrow> None
         | Some s1 \<Rightarrow> Some (snd (handleDispatchPromises s1)))"
proof -
  have a: "map_option trace (triggerSync (Suc 0) rewriting_class [VNum 0] one_listener)
     = Some [Invoked 0, Called 0 VPublisher [VNum 0]]"
    by code_simp
  have b: "map_option trace (triggerSync (Suc 0) rewriting_class [VNum 1] one_listener)
     = Some [Invoked 0, Called 0 VPublisher [VNum 10, VNum 11]]"
    by code_simp
  have c: "map_option trace (triggerSync (Suc 0) rewriting_class [VNum 2] one_listener)
     = Some [Invoked 0, Called 0 VPublisher [VNum 20, VNum 21]]"
    by code_simp
  have d: "map_option trace (triggerSync (Suc 0) rewriting_class [VNum 3] one_listener)
     = Some [Invoked 0, Called 0 VPublisher [VNum 30]]"
    by code_simp
  have e: "spec_args (preEmit rewriting_class [VNum 2]) [VNum 2] = [VNum 20, VNum 21]"
    by (simp add: rewriting_class_def)
  have f: "truthy (shouldEmit rewriting_class [VNum 20, VNum 21])"
    by (simp add: rewriting_class_def)
  show ?thesis
    using a b c d e f triggerSync_preEmit [of 0 rewriting_class "[VNum 2]" one_listener]
    by simp
qed


section \<open>Listeners\<close>

text \<open>
  C10. When the callback of a subscription that is not aborted returns a value that is
  not a promise, the event handler ends in the state the callback left: no dispatch
  record is added, nothing is warned, \<^verbatim>\<open>canHandlePromise\<close> is not called. When it
  returns a promise, \<^verbatim>\<open>canHandlePromise\<close> is called, and the warning follows exactly
  when the answer is no.
\<close>

theorem non_promise_result_discarded:
  assumes "\<not> aborted s h"
    and "apply_fn again P (callback s h) VPublisher args (s\<lparr>trace := trace s @ [Invoked h]\<rparr>) = Some (v, s1)"
  shows "(\<not> isPromise v \<longrightarrow> eventHandler again P args h s = Some s1)
    \<and> (isPromise v \<longrightarrow>
         (\<exists>s2. eventHandler again P args h s = Some s2
            \<and> trace s2 = trace s1 @ CanHandlePromiseQueried #
                (if canHandlePromise P then [] else [Warned (''Unhandled promise for '' @ eventType P)])))"
  using assms by (cases v) (simp_all add: eventHandler_def Let_def)

theorem non_promise_result_discarded_witness:
  "\<not> aborted one_listener 0
   \<and> apply_fn (triggerSync 0 rewriting_class) rewriting_class (callback one_listener 0) VPublisher [VNum 1]
         (one_listener\<lparr>trace := trace one_listener @ [Invoked 0]\<rparr>)
       = Some (VUndef, one_listener\<lparr>trace := [Invoked 0, Called 0 VPublisher [VNum 1]]\<rparr>)
   \<and> \<not> isPromise VUndef
   \<and> eventHandler (triggerSync 0 rewriting_class) rewriting_class [VNum 1] 0 one_listener
       = Some (one_listener\<lparr>trace := [Invoked 0, Called 0 VPublisher [VNum 1]]\<rparr>)
   \<and> apply_fn (triggerSync 0 gated_class) gated_class (callback one_listener 0) VPublisher [VNum 1]
         (one_listener\<lparr>trace := trace one_listener @ [Invoked 0]\<rparr>)
       = Some (VPromise 0, one_listener\<lparr>trace := [Invoked 0, Called 0 VPublisher [VNum 1]]\<rparr>)
   \<and> isPromise (VPromise 0)
   \<and> map_option trace (eventHandler (triggerSync 0 gated_class) gated_class [VNum 1] 0 one_listener)
       = Some [Invoked 0, Called 0 VPublisher [VNum 1], CanHandlePromiseQueried]"
proof -
  have h1: "\<not> aborted one_listener 0" by code_simp
  have cb: "callback one_listener 0 = User 0" by code_simp
  have tr: "trace one_listener = []" by code_simp
  have h2: "apply_fn (triggerSync 0 rewriting_class) rewriting_class (callback one_listener 0) VPublisher [VNum 1]
         (one_listener\<lparr>trace := trace one_listener @ [Invoked 0]\<rparr>)
       = Some (VUndef, one_listener\<lparr>trace := [Invoked 0, Called 0 VPublisher [VNum 1]]\<rparr>)"
    by (simp add: cb tr call_user_def rewriting_class_def)
  have h3: "apply_fn (triggerSync 0 gated_class) gated_class (callback one_listener 0) VPublisher [VNum 1]
         (one_listener\<lparr>trace := trace one_listener @ [Invoked 0]\<rparr>)
       = Some (VPromise 0, one_listener\<lparr>trace := [Invoked 0, Called 0 VPublisher [VNum 1]]\<rparr>)"
    by (simp add: cb tr call_user_def gated_class_def)
  have c: "canHandlePromise gated_class" by (simp add: gated_class_def)
  show ?thesis
    using h1 h2 h3 non_promise_result_discarded [OF h1 h2] non_promise_result_discarded [OF h1 h3] c
    by auto
qed

text \<open>
  C7. In every run of calls of \<^verbatim>\<open>listen\<close>, \<^verbatim>\<open>listenOnce\<close>, unsubscribe
  functions, \<^verbatim>\<open>triggerSync\<close> and \<^verbatim>\<open>resolve\<close>, of settled promises and of promise
  jobs, whatever the listeners do (unsubscribe, subscribe, trigger again), the trace never
  shows the event handler of subscription \<open>h\<close> invoking its callback after a call of the
  unsubscribe function of \<open>h\<close>. This holds wherever the unsubscribe function is called:
  before a cycle, or by a listener during a fan-out that still has a delivery to \<open>h\<close>
  ahead.
\<close>

theorem unsubscribed_never_invoked:
  assumes "sub_ok h s" and "execs n P ops s = Some s'"
    and "trace s' = xs @ Unsubscribed h # ys"
  shows "Invoked h \<notin> set ys"
  using execs_ok [OF assms(1,2)] assms(3) never_after_split [of h xs ys]
  by (simp add: sub_ok_def)

theorem unsubscribed_never_invoked_witness:
  "sub_ok 1 two_listeners
   \<and> listeners two_listeners = [0, 1]
   \<and> execs 1 unsub_class unsub_run two_listeners = Some (the (execs 1 unsub_class unsub_run two_listeners))
   \<and> trace (the (execs 1 unsub_class unsub_run two_listeners))
       = [Invoked 0, Called 0 VPublisher [VNum 1]] @ Unsubscribed 1
           # [Invoked 0, Called 0 VPublisher [VNum 2], Unsubscribed 1]
   \<and> Invoked 1 \<notin> set [Invoked 0, Called 0 VPublisher [VNum 2], Unsubscribed 1]
   \<and> map_option trace (execs 1 silent_class unsub_run two_listeners)
       = Some [Invoked 0, Called 0 VPublisher [VNum 1], Invoked 1, Called 1 VPublisher [VNum 1],
               Invoked 0, Called 0 VPublisher [VNum 2], Invoked 1, Called 1 VPublisher [VNum 2]]
   \<and> map_option trace (execs 1 silent_class (Unsub 0 # unsub_run) two_listeners)
       = Some [Unsubscribed 0, Invoked 1, Called 1 VPublisher [VNum 1],
               Invoked 1, Called 1 VPublisher [VNum 2]]"
proof -
  have t0: "trace two_listeners = []" by code_simp
  have ok: "sub_ok 1 two_listeners" by (simp add: sub_ok_def t0)
  have l: "listeners two_listeners = [0, 1]" by code_simp
  have "map_option trace (execs 1 unsub_class unsub_run two_listeners)
       = Some ([Invoked 0, Called 0 VPublisher [VNum 1]] @ Unsubscribed 1
           # [Invoked 0, Called 0 VPublisher [VNum 2], Unsubscribed 1])"
    by code_simp
  then have r: "execs 1 unsub_class unsub_run two_listeners = Some (the (execs 1 unsub_class unsub_run two_listeners))"
    and tr: "trace (the (execs 1 unsub_class unsub_run two_listeners))
       = [Invoked 0, Called 0 VPublisher [VNum 1]] @ Unsubscribed 1
           # [Invoked 0, Called 0 VPublisher [VNum 2], Unsubscribed 1]"
    by (auto dest: Some_the)
  have a: "map_option trace (execs 1 silent_class unsub_run two_listeners)
       = Some [Invoked 0, Called 0 VPublisher [VNum 1], Invoked 1, Called 1 VPublisher [VNum 1],
               Invoked 0, Called 0 VPublisher [VNum 2], Invoked 1, Called 1 VPublisher [VNum 2]]"
    by code_simp
  have b: "map_option trace (execs 1 silent_class (Unsub 0 # unsub_run) two_listeners)
       = Some [Unsubscribed 0, Invoked 1, Called 1 VPublisher [VNum 1],
               Invoked 1, Called 1 VPublisher [VNum 2]]"
    by code_simp
  show ?thesis
    using ok l r tr a b unsubscribed_never_invoked [OF ok r tr]
    by simp
qed

text \<open>
  C6 at a failing input. A callback registered with \<^verbatim>\<open>listenOnce(f)\<close> is called once,
  after its subscription has been unsubscribed, and not again in the second cycle; but the
  cycle \<^verbatim>\<open>triggerSync(1, 2)\<close> calls it with \<open>f\<close> itself as its only argument, not with
  \<open>1, 2\<close>, and with \<open>f\<close> and the context when \<^verbatim>\<open>listenOnce(f, ctx)\<close> registered it. A
  callback registered with \<^verbatim>\<open>listen\<close> gets \<open>1, 2\<close>.
\<close>

theorem listenOnce_passes_own_arguments:
  "map_option trace
     (execs 1 silent_class [TriggerSync [VNum 1, VNum 2], TriggerSync [VNum 3]] (snd (listenOnce 0 None init)))
     = Some [Invoked 0, Unsubscribed 0, Called 0 VPublisher [VFun (User 0)]]
   \<and> map_option trace
     (execs 1 silent_class [TriggerSync [VNum 1, VNum 2]] (snd (listenOnce 0 (Some (VStr ''ctx'')) init)))
     = Some [Invoked 0, Unsubscribed 0, Called 0 (VStr ''ctx'') [VFun (User 0), VStr ''ctx'']]
   \<and> map_option trace
     (execs 1 silent_class [TriggerSync [VNum 1, VNum 2]] (snd (listen (User 0) init)))
     = Some [Invoked 0, Called 0 VPublisher [VNum 1, VNum 2]]"
  by code_simp

end
